theory Spec2Isabelle
  imports Main "HOL-Library.Word" "HOL-Library.Char_ord" "HOL-Library.List_Lexorder"
begin

section \<open>Build-support utilities of \<^verbatim>\<open>Cython/Utils.py\<close>: the model\<close>

text \<open>
  The definitions follow the module top to bottom: the exceptions it can raise, the
  memoisation decorators, the package lookups over a filesystem snapshot, the search for
  versioned companion files, the descriptor capture scope and the decoding of captured
  bytes. The properties come after all of them.
\<close>

subsection \<open>Exceptions\<close>

datatype syscall = Dup | Mkstemp | Dup2_capture | Dup2_restore | Seek_read | Write | File_close | Close

datatype error =
    AssertionError
  | AttributeError
  | UnicodeDecodeError
  | LookupError
  | StopIteration
  | GeneratorExit
  | OSError syscall
  | Raised nat

subsection \<open>\<^verbatim>\<open>cached_function\<close>\<close>

text \<open>
  The state of one decorated function: its \<^verbatim>\<open>cache\<close> dictionary (an element of
  \<^verbatim>\<open>_function_caches\<close>), keyed by the argument tuple, and whatever the underlying function
  reads and writes (\<open>world\<close>). The underlying function may raise. The field \<open>invoked\<close> is
  not in the source: it logs the argument tuples the underlying function was run with, so
  that invocations can be counted.
\<close>

record ('a, 'b, 'w) memo =
  cache :: "'a \<rightharpoonup> 'b"
  world :: 'w
  invoked :: "'a list"

text \<open>
  \<^verbatim>\<open>wrapper(*args)\<close>. The sentinel \<^verbatim>\<open>uncomputed\<close> is a fresh object that no result can
  be, so \<^verbatim>\<open>cache.get(args, uncomputed)\<close> is the lookup itself. A raise of the underlying
  function leaves the cache as it was.
\<close>

definition wrapper ::
  "('a \<Rightarrow> 'w \<Rightarrow> (error + 'b) \<times> 'w) \<Rightarrow> 'a \<Rightarrow> ('a, 'b, 'w) memo \<Rightarrow> (error + 'b) \<times> ('a, 'b, 'w) memo" where
  "wrapper f args s =
     (case cache s args of
        Some res \<Rightarrow> (Inr res, s)
      | None \<Rightarrow>
          (case f args (world s) of
             (Inl e, w) \<Rightarrow> (Inl e, s\<lparr>world := w, invoked := invoked s @ [args]\<rparr>)
           | (Inr res, w) \<Rightarrow>
               (Inr res, s\<lparr>cache := (cache s)(args \<mapsto> res), world := w,
                             invoked := invoked s @ [args]\<rparr>)))"

text \<open>\<^verbatim>\<open>clear_function_caches\<close>, on this function's cache.\<close>

definition clear_function_caches :: "('a, 'b, 'w) memo \<Rightarrow> ('a, 'b, 'w) memo" where
  "clear_function_caches s = s\<lparr>cache := Map.empty\<rparr>"

text \<open>A run of calls; a raise ends one call, not the run of its caller's later calls.\<close>

fun call_all ::
  "('a \<Rightarrow> 'w \<Rightarrow> (error + 'b) \<times> 'w) \<Rightarrow> 'a list \<Rightarrow> ('a, 'b, 'w) memo \<Rightarrow> ('a, 'b, 'w) memo" where
  "call_all f [] s = s"
| "call_all f (args # rest) s = call_all f rest (snd (wrapper f args s))"

text \<open>An underlying function for the examples: it counts its runs and fails on zero.\<close>

definition halve :: "nat \<Rightarrow> nat \<Rightarrow> (error + nat) \<times> nat" where
  "halve n runs = (if n = 0 then (Inl (Raised 0), Suc runs) else (Inr (n div 2), Suc runs))"

definition fresh_memo :: "(nat, nat, nat) memo" where
  "fresh_memo = \<lparr>cache = Map.empty, world = 0, invoked = []\<rparr>"

subsection \<open>Method caches\<close>

text \<open>
  An object is its instance dictionary, as an association list, and the names that resolve
  through its class (methods and class attributes). \<^verbatim>\<open>dir(obj)\<close> lists both, sorted and
  without repetition; \<^verbatim>\<open>hasattr\<close> looks in both; \<^verbatim>\<open>delattr\<close> removes an instance
  attribute and raises \<^verbatim>\<open>AttributeError\<close> for a name the instance does not hold.
\<close>

record 'v py_object =
  attrs :: "(string \<times> 'v) list"
  class_names :: "string list"

definition attr_names :: "'v py_object \<Rightarrow> string set" where
  "attr_names obj = fst ` set (attrs obj)"

definition dir_obj :: "'v py_object \<Rightarrow> string list" where
  "dir_obj obj = sort (remdups (map fst (attrs obj) @ class_names obj))"

definition hasattr :: "'v py_object \<Rightarrow> string \<Rightarrow> bool" where
  "hasattr obj name = (name \<in> attr_names obj \<or> name \<in> set (class_names obj))"

definition delattr :: "'v py_object \<Rightarrow> string \<Rightarrow> error option \<times> 'v py_object" where
  "delattr obj name =
     (if name \<in> attr_names obj
      then (None, obj\<lparr>attrs := filter (\<lambda>kv. fst kv \<noteq> name) (attrs obj)\<rparr>)
      else (Some AttributeError, obj))"

text \<open>
  \<^verbatim>\<open>_build_cache_name\<close> and \<^verbatim>\<open>_CACHE_NAME_PATTERN.match\<close> for \<^verbatim>\<open>^__(.+)_cache$\<close>: the
  group is what stands between the leading \<^verbatim>\<open>__\<close> and the final \<^verbatim>\<open>_cache\<close>; it is not
  empty and holds no newline; \<^verbatim>\<open>$\<close> also matches before one trailing newline.
\<close>

definition build_cache_name :: "string \<Rightarrow> string" where
  "build_cache_name method_name = ''__'' @ method_name @ ''_cache''"

definition cache_name_match :: "string \<Rightarrow> string option" where
  "cache_name_match attr_name =
     (let m = (if attr_name \<noteq> [] \<and> last attr_name = CHR 0x0A then butlast attr_name else attr_name);
          g = take (length m - 8) (drop 2 m)
      in if 8 < length m \<and> take 2 m = ''__'' \<and> drop (length m - 6) m = ''_cache'' \<and>
            CHR 0x0A \<notin> set g
         then Some g else None)"

fun find_cache_attributes_loop :: "string list \<Rightarrow> (string \<times> string) list" where
  "find_cache_attributes_loop [] = []"
| "find_cache_attributes_loop (attr_name # rest) =
     (case cache_name_match attr_name of
        None \<Rightarrow> find_cache_attributes_loop rest
      | Some method_name \<Rightarrow> (attr_name, method_name) # find_cache_attributes_loop rest)"

definition find_cache_attributes :: "'v py_object \<Rightarrow> (string \<times> string) list" where
  "find_cache_attributes obj = find_cache_attributes_loop (dir_obj obj)"

text \<open>
  \<^verbatim>\<open>clear_method_caches\<close>: the names were listed before the loop starts, the test
  \<^verbatim>\<open>hasattr\<close> reads the object as the loop has left it so far, and a raise of
  \<^verbatim>\<open>delattr\<close> ends the loop with the deletions made so far in place.
\<close>

fun clear_method_caches_loop :: "(string \<times> string) list \<Rightarrow> 'v py_object \<Rightarrow> error option \<times> 'v py_object" where
  "clear_method_caches_loop [] obj = (None, obj)"
| "clear_method_caches_loop ((cache_name, method_name) # rest) obj =
     (if hasattr obj method_name
      then (case delattr obj cache_name of
              (Some e, obj') \<Rightarrow> (Some e, obj')
            | (None, obj') \<Rightarrow> clear_method_caches_loop rest obj')
      else clear_method_caches_loop rest obj)"

definition clear_method_caches :: "'v py_object \<Rightarrow> error option \<times> 'v py_object" where
  "clear_method_caches obj = clear_method_caches_loop (find_cache_attributes obj) obj"

text \<open>
  What the properties speak of: an attribute is removable when its name follows the
  convention and the method name in it resolves on the object.
\<close>

definition removable :: "'v py_object \<Rightarrow> string \<Rightarrow> bool" where
  "removable obj name =
     (case cache_name_match name of None \<Rightarrow> False | Some method_name \<Rightarrow> hasattr obj method_name)"

text \<open>
  The clearing as the specification words it, for comparison: every removable attribute
  goes, everything else stays, nothing is raised.
\<close>

definition clear_instance_caches_spec :: "'v py_object \<Rightarrow> 'v py_object" where
  "clear_instance_caches_spec obj = obj\<lparr>attrs := filter (\<lambda>kv. \<not> removable obj (fst kv)) (attrs obj)\<rparr>"

text \<open>
  Two objects for the examples. The first one has a cache-named attribute on its class,
  where \<^verbatim>\<open>setattr\<close> on the class can put one (a name written in a class body is
  mangled and never follows the convention).
\<close>

definition shared_cache_obj :: "nat py_object" where
  "shared_cache_obj =
     \<lparr>attrs = [(''__g_cache'', 1)], class_names = [''__f_cache'', ''f'', ''g'']\<rparr>"

definition parser_obj :: "nat py_object" where
  "parser_obj =
     \<lparr>attrs = [(''__parse_cache'', 1), (''__gone_cache'', 2), (''state'', 3)],
      class_names = [''parse'', ''__init__'']\<rparr>"

subsection \<open>Paths and the filesystem snapshot\<close>

text \<open>
  Paths are Python \<^verbatim>\<open>str\<close> values, compared as text. A snapshot lists every path for
  which \<^verbatim>\<open>os.path.exists\<close> answers true, under the spelling the module builds
  (\<^verbatim>\<open>os.path.join\<close> of a directory and a name, with a suffix where one is added), and
  every path that the zip-loader branch of \<^verbatim>\<open>path_exists\<close> accepts. The lookups below are
  decorated with \<^verbatim>\<open>cached_function\<close>; on one snapshot, with caches filled from it, the
  decorated function returns what its body returns, and the bodies are what is modelled.
\<close>

record snapshot =
  on_disk :: "string list"
  in_archive :: "string list"

definition os_path_exists :: "snapshot \<Rightarrow> string \<Rightarrow> bool" where
  "os_path_exists fs path = (path \<in> set (on_disk fs))"

text \<open>\<^verbatim>\<open>posixpath.join\<close> of two components.\<close>

definition path_join :: "string \<Rightarrow> string \<Rightarrow> string" where
  "path_join a b =
     (if take 1 b = ''/'' then b
      else if a = [] \<or> last a = CHR ''/'' then a @ b
      else a @ ''/'' @ b)"

text \<open>
  \<^verbatim>\<open>posixpath.dirname\<close>: the text up to and including the last slash, with its trailing
  slashes removed unless it consists of slashes only.
\<close>

definition rstrip_slash :: "string \<Rightarrow> string" where
  "rstrip_slash s = rev (dropWhile (\<lambda>c. c = CHR ''/'') (rev s))"

definition dirname :: "string \<Rightarrow> string" where
  "dirname p =
     (let head = rev (dropWhile (\<lambda>c. c \<noteq> CHR ''/'') (rev p))
      in if head \<noteq> [] \<and> head \<noteq> replicate (length head) (CHR ''/'')
         then rstrip_slash head else head)"

text \<open>\<^verbatim>\<open>dirname\<close> returns its argument or a proper prefix of it, so a walk upwards ends.\<close>

lemma dirname_shorter:
  assumes ne: "dirname file_path \<noteq> file_path"
  shows "length (dirname file_path) < length file_path"
proof -
  define head where "head = rev (dropWhile (\<lambda>c. c \<noteq> CHR ''/'') (rev file_path))"
  have "rev file_path = takeWhile (\<lambda>c. c \<noteq> CHR ''/'') (rev file_path)
      @ dropWhile (\<lambda>c. c \<noteq> CHR ''/'') (rev file_path)"
    by simp
  then have "rev (rev file_path) = head @ rev (takeWhile (\<lambda>c. c \<noteq> CHR ''/'') (rev file_path))"
    unfolding head_def by (metis rev_append)
  then have p: "file_path = head @ rev (takeWhile (\<lambda>c. c \<noteq> CHR ''/'') (rev file_path))"
    by simp
  have "rev head = takeWhile (\<lambda>c. c = CHR ''/'') (rev head) @ dropWhile (\<lambda>c. c = CHR ''/'') (rev head)"
    by simp
  then have "rev (rev head) = rstrip_slash head @ rev (takeWhile (\<lambda>c. c = CHR ''/'') (rev head))"
    unfolding rstrip_slash_def by (metis rev_append)
  then have h: "head = rstrip_slash head @ rev (takeWhile (\<lambda>c. c = CHR ''/'') (rev head))"
    by simp
  have "\<exists>rest. file_path = dirname file_path @ rest"
  proof (cases "head \<noteq> [] \<and> head \<noteq> replicate (length head) (CHR ''/'')")
    case True
    then have "dirname file_path = rstrip_slash head"
      unfolding dirname_def head_def[symmetric] Let_def by simp
    with p h show ?thesis by (metis append.assoc)
  next
    case False
    then have "dirname file_path = head"
      unfolding dirname_def head_def[symmetric] Let_def by auto
    with p show ?thesis by metis
  qed
  then obtain rest where r: "file_path = dirname file_path @ rest" by blast
  with ne have "rest \<noteq> []" by auto
  with r show ?thesis
    by (metis length_append length_greater_0_conv less_add_same_cancel1)
qed

subsection \<open>Package directories\<close>

definition PACKAGE_FILES :: "string list" where
  "PACKAGE_FILES = [''__init__.py'', ''__init__.pyc'', ''__init__.pyx'', ''__init__.pxd'']"

text \<open>
  \<^verbatim>\<open>path_exists\<close>. The list threaded through the lookups is not in the source: it records,
  in order, every path handed to \<^verbatim>\<open>path_exists\<close>, so that a property can say which marker
  lookups a call made.
\<close>

definition path_exists :: "snapshot \<Rightarrow> string \<Rightarrow> string list \<Rightarrow> bool \<times> string list" where
  "path_exists fs path probed =
     ((if os_path_exists fs path then True else path \<in> set (in_archive fs)), probed @ [path])"

text \<open>\<^verbatim>\<open>contains_init\<close> returns \<^verbatim>\<open>1\<close> at the first marker found and \<^verbatim>\<open>None\<close> otherwise.\<close>

fun contains_init_loop :: "snapshot \<Rightarrow> string \<Rightarrow> string list \<Rightarrow> string list \<Rightarrow> nat option \<times> string list" where
  "contains_init_loop fs dir_path [] probed = (None, probed)"
| "contains_init_loop fs dir_path (filename # rest) probed =
     (let path = path_join dir_path filename
      in case path_exists fs path probed of
           (True, probed') \<Rightarrow> (Some 1, probed')
         | (False, probed') \<Rightarrow> contains_init_loop fs dir_path rest probed')"

definition contains_init :: "snapshot \<Rightarrow> string \<Rightarrow> string list \<Rightarrow> nat option \<times> string list" where
  "contains_init fs dir_path probed = contains_init_loop fs dir_path PACKAGE_FILES probed"

definition is_package_dir :: "snapshot \<Rightarrow> string \<Rightarrow> string list \<Rightarrow> nat option \<times> string list" where
  "is_package_dir fs dir_path probed =
     (case contains_init fs dir_path probed of
        (Some r, probed') \<Rightarrow> (if r \<noteq> 0 then (Some 1, probed') else (None, probed'))
      | (None, probed') \<Rightarrow> (None, probed'))"

text \<open>
  \<^verbatim>\<open>check_package_dir\<close>: the loop state is \<^verbatim>\<open>(dir_path, namespace)\<close>; the loop
  variable \<^verbatim>\<open>dirname\<close> is \<open>dir_name\<close> here, beside the function of that name.
\<close>

fun check_package_dir_loop ::
  "snapshot \<Rightarrow> string list \<Rightarrow> string \<times> bool \<Rightarrow> string list \<Rightarrow> (string \<times> bool) \<times> string list" where
  "check_package_dir_loop fs [] (dir_path, namespace) probed = ((dir_path, namespace), probed)"
| "check_package_dir_loop fs (dir_name # rest) (dir_path, namespace) probed =
     (let dir_path' = path_join dir_path dir_name
      in case contains_init fs dir_path' probed of
           (has_init, probed') \<Rightarrow>
             check_package_dir_loop fs rest
               (dir_path', if has_init \<noteq> None \<and> has_init \<noteq> Some 0 then False else namespace) probed')"

definition check_package_dir ::
  "snapshot \<Rightarrow> string \<Rightarrow> string list \<Rightarrow> string list \<Rightarrow> (string \<times> bool) \<times> string list" where
  "check_package_dir fs dir_path package_names probed =
     check_package_dir_loop fs package_names (dir_path, True) probed"

text \<open>
  \<^verbatim>\<open>find_root_package_dir\<close>. \<^verbatim>\<open>dirname\<close> returns its argument or a proper prefix of
  it, so the walk ends.
\<close>

function find_root_package_dir :: "snapshot \<Rightarrow> string \<Rightarrow> string list \<Rightarrow> string \<times> string list" where
  "find_root_package_dir fs file_path probed =
     (let dir = dirname file_path
      in if file_path = dir then (dir, probed)
         else case is_package_dir fs dir probed of
                (Some r, probed') \<Rightarrow> find_root_package_dir fs dir probed'
              | (None, probed') \<Rightarrow> (dir, probed'))"
  by pat_completeness auto
termination
  by (relation "measure (\<lambda>(fs, file_path, probed). length file_path)")
    (auto intro: dirname_shorter)

declare find_root_package_dir.simps [simp del]

text \<open>
  For comparison, the walk as the specification words it: from the file's parent upwards
  while the directory above is a package too, returning the last directory that has a
  marker. A directory has a marker when one of \<^verbatim>\<open>PACKAGE_FILES\<close> exists in it.
\<close>

definition has_marker :: "snapshot \<Rightarrow> string \<Rightarrow> bool" where
  "has_marker fs dir_path =
     (\<exists>filename\<in>set PACKAGE_FILES.
        os_path_exists fs (path_join dir_path filename) \<or>
        path_join dir_path filename \<in> set (in_archive fs))"

function outermost_package :: "snapshot \<Rightarrow> string \<Rightarrow> string" where
  "outermost_package fs dir =
     (if dirname dir \<noteq> dir \<and> has_marker fs (dirname dir)
      then outermost_package fs (dirname dir) else dir)"
  by pat_completeness auto
termination
  by (relation "measure (\<lambda>(fs, dir). length dir)") (auto intro: dirname_shorter)

declare outermost_package.simps [simp del]

definition find_containing_package_root_spec :: "snapshot \<Rightarrow> string \<Rightarrow> string" where
  "find_containing_package_root_spec fs file_path = outermost_package fs (dirname file_path)"

text \<open>The directories \<^verbatim>\<open>check_package_dir\<close> visits: the segments joined one after another.\<close>

fun joined_dirs :: "string \<Rightarrow> string list \<Rightarrow> string list" where
  "joined_dirs dir_path [] = []"
| "joined_dirs dir_path (dir_name # rest) =
     path_join dir_path dir_name # joined_dirs (path_join dir_path dir_name) rest"

text \<open>Snapshots for the examples.\<close>

definition pkg_tree :: snapshot where
  "pkg_tree = \<lparr>on_disk = [''/a/b/__init__.py'', ''/a/b/c/__init__.pyx'', ''/a/b/c/m.py''], in_archive = []\<rparr>"

definition empty_dir :: snapshot where
  "empty_dir = \<lparr>on_disk = [], in_archive = []\<rparr>"

subsection \<open>Versioned companion files\<close>



















subsection \<open>Descriptors and open files\<close>

text \<open>
  Bytes are 8-bit words; decoded text is a list of code points. The operating system is a
  descriptor table (an association list from descriptors to open file descriptions) and
  the open file descriptions themselves, each with its content and its offset, which the
  descriptors that \<^verbatim>\<open>dup\<close> and \<^verbatim>\<open>dup2\<close> make share. A system call fails when its
  descriptor is not open, or when the environment makes it fail: that is its first
  argument.
\<close>

type_synonym byte = "8 word"

type_synonym unicode = "nat list"

record open_file =
  content :: "byte list"
  offset :: nat

record os_state =
  fds :: "(nat \<times> nat) list"
  files :: "nat \<Rightarrow> open_file"

definition lookup_fd :: "os_state \<Rightarrow> nat \<Rightarrow> nat option" where
  "lookup_fd s fd = map_of (fds s) fd"

definition bind_fd :: "nat \<Rightarrow> nat \<Rightarrow> os_state \<Rightarrow> os_state" where
  "bind_fd fd f s = s\<lparr>fds := (fd, f) # filter (\<lambda>e. fst e \<noteq> fd) (fds s)\<rparr>"

definition release_fd :: "nat \<Rightarrow> os_state \<Rightarrow> os_state" where
  "release_fd fd s = s\<lparr>fds := filter (\<lambda>e. fst e \<noteq> fd) (fds s)\<rparr>"

text \<open>The lowest number not in use; among \<open>n + 1\<close> numbers one is free of \<open>n\<close> used ones.\<close>

definition lowest_free :: "nat list \<Rightarrow> nat option" where
  "lowest_free used = find (\<lambda>n. n \<notin> set used) [0..<Suc (length used)]"

definition os_dup :: "bool \<Rightarrow> nat \<Rightarrow> os_state \<Rightarrow> (error + nat) \<times> os_state" where
  "os_dup fault fd s =
     (case lookup_fd s fd of
        None \<Rightarrow> (Inl (OSError Dup), s)
      | Some f \<Rightarrow>
          if fault then (Inl (OSError Dup), s)
          else (case lowest_free (map fst (fds s)) of
                  None \<Rightarrow> (Inl (OSError Dup), s)
                | Some n \<Rightarrow> (Inr n, bind_fd n f s)))"

definition os_dup2 :: "bool \<Rightarrow> syscall \<Rightarrow> nat \<Rightarrow> nat \<Rightarrow> os_state \<Rightarrow> error option \<times> os_state" where
  "os_dup2 fault call old new s =
     (case lookup_fd s old of
        None \<Rightarrow> (Some (OSError call), s)
      | Some f \<Rightarrow> if fault then (Some (OSError call), s) else (None, bind_fd new f s))"

text \<open>A close that reports an error has released an open descriptor all the same.\<close>

definition os_close :: "bool \<Rightarrow> syscall \<Rightarrow> nat \<Rightarrow> os_state \<Rightarrow> error option \<times> os_state" where
  "os_close fault call fd s =
     (case lookup_fd s fd of
        None \<Rightarrow> (Some (OSError call), s)
      | Some f \<Rightarrow> ((if fault then Some (OSError call) else None), release_fd fd s))"



text \<open>
  \<^verbatim>\<open>tempfile.TemporaryFile(mode="a+b")\<close>: a new, empty open file description under the
  lowest free descriptor. \<^verbatim>\<open>temp_file.seek(0)\<close> followed by \<^verbatim>\<open>temp_file.read()\<close> returns
  the whole content and leaves the offset at its end.
\<close>

definition temporary_file :: "bool \<Rightarrow> os_state \<Rightarrow> (error + nat) \<times> os_state" where
  "temporary_file fault s =
     (if fault then (Inl (OSError Mkstemp), s)
      else case lowest_free (map fst (fds s)) of
             None \<Rightarrow> (Inl (OSError Mkstemp), s)
           | Some n \<Rightarrow>
               (case lowest_free (map snd (fds s)) of
                  None \<Rightarrow> (Inl (OSError Mkstemp), s)
                | Some f \<Rightarrow>
                    (Inr n, bind_fd n f (s\<lparr>files := (files s)(f := \<lparr>content = [], offset = 0\<rparr>)\<rparr>))))"

definition seek_read :: "bool \<Rightarrow> nat \<Rightarrow> os_state \<Rightarrow> (error + byte list) \<times> os_state" where
  "seek_read fault fd s =
     (case lookup_fd s fd of
        None \<Rightarrow> (Inl (OSError Seek_read), s)
      | Some f \<Rightarrow>
          if fault then (Inl (OSError Seek_read), s)
          else (Inr (content (files s f)),
                s\<lparr>files := (files s)(f := (files s f)\<lparr>offset := length (content (files s f))\<rparr>)\<rparr>))"

subsection \<open>\<^verbatim>\<open>captured_fd\<close>\<close>

text \<open>
  The locals of the generator and the cell \<^verbatim>\<open>_output[0]\<close> (\<open>saved_output\<close>). The
  temporary file object is its descriptor and its \<^verbatim>\<open>closed\<close> flag.
\<close>

record session =
  stream :: nat
  encoding :: "string option"
  orig_stream :: nat
  temp_file :: nat
  temp_closed :: bool
  saved_output :: "byte list"

text \<open>Which system calls of a scope the environment makes fail.\<close>

record faults =
  dup_fails :: bool
  mkstemp_fails :: bool
  capture_fails :: bool
  restore_fails :: bool
  read_fails :: bool
  file_close_fails :: bool
  close_fails :: bool

datatype captured = Bytes "byte list" | Text unicode

definition read_output :: "bool \<Rightarrow> session \<Rightarrow> os_state \<Rightarrow> (error + byte list) \<times> session \<times> os_state" where
  "read_output fault sess s =
     (if \<not> temp_closed sess
      then (case seek_read fault (temp_file sess) s of
              (Inl e, s') \<Rightarrow> (Inl e, sess, s')
            | (Inr data, s') \<Rightarrow> (Inr data, sess\<lparr>saved_output := data\<rparr>, s'))
      else (Inr (saved_output sess), sess, s))"

text \<open>\<^verbatim>\<open>get_output\<close>, the function the scope hands out; \<open>codec\<close> is \<^verbatim>\<open>bytes.decode\<close>.\<close>

definition get_output ::
  "(string \<Rightarrow> byte list \<Rightarrow> error + unicode) \<Rightarrow> bool \<Rightarrow> session \<Rightarrow> os_state
     \<Rightarrow> (error + captured) \<times> session \<times> os_state" where
  "get_output codec fault sess s =
     (case read_output fault sess s of
        (Inl e, sess', s') \<Rightarrow> (Inl e, sess', s')
      | (Inr result, sess', s') \<Rightarrow>
          (case encoding sess' of
             None \<Rightarrow> (Inr (Bytes result), sess', s')
           | Some enc \<Rightarrow>
               if enc = [] then (Inr (Bytes result), sess', s')
               else (case codec enc result of
                       Inl e \<Rightarrow> (Inl e, sess', s')
                     | Inr t \<Rightarrow> (Inr (Text t), sess', s'))))"

text \<open>
  Leaving the \<^verbatim>\<open>with\<close> block of the temporary file closes it, and the \<^verbatim>\<open>finally\<close> clause
  closes the duplicate; an exception raised on the way replaces the pending one.
\<close>

definition file_exit :: "faults \<Rightarrow> error option \<Rightarrow> session \<Rightarrow> os_state \<Rightarrow> error option \<times> session \<times> os_state" where
  "file_exit flt pending sess s =
     (if temp_closed sess then (pending, sess, s)
      else case os_close (file_close_fails flt) File_close (temp_file sess) s of
             (Some e, s') \<Rightarrow> (Some e, sess\<lparr>temp_closed := True\<rparr>, s')
           | (None, s') \<Rightarrow> (pending, sess\<lparr>temp_closed := True\<rparr>, s'))"

definition finally_close :: "faults \<Rightarrow> error option \<Rightarrow> nat \<Rightarrow> os_state \<Rightarrow> error option \<times> os_state" where
  "finally_close flt pending orig s =
     (case os_close (close_fails flt) Close orig s of
        (Some e, s') \<Rightarrow> (Some e, s')
      | (None, s') \<Rightarrow> (pending, s'))"

definition unwind :: "faults \<Rightarrow> error option \<Rightarrow> session \<Rightarrow> os_state \<Rightarrow> error option \<times> session \<times> os_state" where
  "unwind flt pending sess s =
     (case file_exit flt pending sess s of
        (p1, sess1, s1) \<Rightarrow>
          (case finally_close flt p1 (orig_stream sess1) s1 of
             (p2, s2) \<Rightarrow> (p2, sess1, s2)))"

text \<open>
  The generator, in its two runs. \<open>captured_fd_start\<close> is the first \<^verbatim>\<open>next\<close>: up to the
  \<^verbatim>\<open>yield\<close>, or to the exception that ends it. \<open>captured_fd_resume\<close> is the second: from
  the \<^verbatim>\<open>yield\<close> to the end, where \<^verbatim>\<open>next\<close> raises \<^verbatim>\<open>StopIteration\<close>, or to another
  exception.
\<close>

definition captured_fd_start :: "faults \<Rightarrow> nat \<Rightarrow> string option \<Rightarrow> os_state \<Rightarrow> (error + session) \<times> os_state" where
  "captured_fd_start flt strm enc s =
     (case os_dup (dup_fails flt) strm s of
        (Inl e, s0) \<Rightarrow> (Inl e, s0)
      | (Inr orig, s0) \<Rightarrow>
          (case temporary_file (mkstemp_fails flt) s0 of
             (Inl e, s1) \<Rightarrow>
               (case finally_close flt (Some e) orig s1 of
                  (p, s2) \<Rightarrow> (Inl (case p of Some e' \<Rightarrow> e' | None \<Rightarrow> e), s2))
           | (Inr tf, s1) \<Rightarrow>
               (let sess = \<lparr>stream = strm, encoding = enc, orig_stream = orig, temp_file = tf,
                            temp_closed = False, saved_output = []\<rparr>
                in case os_dup2 (capture_fails flt) Dup2_capture tf strm s1 of
                     (Some e, s2) \<Rightarrow>
                       (case unwind flt (Some e) sess s2 of
                          (p, sess', s3) \<Rightarrow> (Inl (case p of Some e' \<Rightarrow> e' | None \<Rightarrow> e), s3))
                   | (None, s2) \<Rightarrow> (Inr sess, s2))))"

definition captured_fd_resume :: "faults \<Rightarrow> session \<Rightarrow> os_state \<Rightarrow> error \<times> session \<times> os_state" where
  "captured_fd_resume flt sess s =
     (case os_dup2 (restore_fails flt) Dup2_restore (orig_stream sess) (stream sess) s of
        (Some e, s1) \<Rightarrow>
          (case unwind flt (Some e) sess s1 of
             (p, sess', s2) \<Rightarrow> ((case p of Some e' \<Rightarrow> e' | None \<Rightarrow> e), sess', s2))
      | (None, s1) \<Rightarrow>
          (case read_output (read_fails flt) sess s1 of
             (Inl e, sess1, s2) \<Rightarrow>
               (case unwind flt (Some e) sess1 s2 of
                  (p, sess', s3) \<Rightarrow> ((case p of Some e' \<Rightarrow> e' | None \<Rightarrow> e), sess', s3))
           | (Inr data, sess1, s2) \<Rightarrow>
               (case unwind flt None sess1 s2 of
                  (p, sess', s3) \<Rightarrow> ((case p of Some e' \<Rightarrow> e' | None \<Rightarrow> StopIteration), sess', s3))))"

text \<open>
  \<^verbatim>\<open>_TryFinallyGeneratorContextManager\<close>: \<^verbatim>\<open>__enter__\<close> is the first \<^verbatim>\<open>next\<close>;
  \<^verbatim>\<open>__exit__\<close> ignores the exception it is told about, runs the second \<^verbatim>\<open>next\<close>,
  swallows \<^verbatim>\<open>StopIteration\<close> and \<^verbatim>\<open>GeneratorExit\<close> and lets anything else out. It returns
  \<^verbatim>\<open>None\<close>, so an exception of the protected region goes on after it.
\<close>

definition cm_enter :: "faults \<Rightarrow> nat \<Rightarrow> string option \<Rightarrow> os_state \<Rightarrow> (error + session) \<times> os_state" where
  "cm_enter flt strm enc s = captured_fd_start flt strm enc s"

definition cm_exit :: "faults \<Rightarrow> error option \<Rightarrow> session \<Rightarrow> os_state \<Rightarrow> error option \<times> session \<times> os_state" where
  "cm_exit flt exc sess s =
     (case captured_fd_resume flt sess s of
        (e, sess', s') \<Rightarrow> ((if e = StopIteration \<or> e = GeneratorExit then None else Some e), sess', s'))"

text \<open>
  The protected region is client code. It ends normally or with an exception, and on the
  way it may do anything to the operating system state and call the function it was
  handed, going on according to what it gets back.
\<close>

datatype body =
    Done "error option"
  | Sys "os_state \<Rightarrow> os_state" "os_state \<Rightarrow> body"
  | Retrieve bool "error + captured \<Rightarrow> body"

primrec run_body ::
  "(string \<Rightarrow> byte list \<Rightarrow> error + unicode) \<Rightarrow> body \<Rightarrow> session \<Rightarrow> os_state
     \<Rightarrow> error option \<times> session \<times> os_state" where
  "run_body codec (Done e) = (\<lambda>sess s. (e, sess, s))"
| "run_body codec (Sys effect k) = (\<lambda>sess s. run_body codec (k s) sess (effect s))"
| "run_body codec (Retrieve fault k) =
     (\<lambda>sess s. case get_output codec fault sess s of
                 (r, sess', s') \<Rightarrow> run_body codec (k r) sess' s')"

text \<open>
  \<^verbatim>\<open>with captured_fd(stream, encoding) as get_output: body\<close>. The result is the exception
  that leaves the statement, if any, the session if the scope was entered, and the state.
\<close>

definition with_captured_fd ::
  "(string \<Rightarrow> byte list \<Rightarrow> error + unicode) \<Rightarrow> faults \<Rightarrow> nat \<Rightarrow> string option \<Rightarrow> body \<Rightarrow> os_state
     \<Rightarrow> error option \<times> session option \<times> os_state" where
  "with_captured_fd codec flt strm enc b s =
     (case cm_enter flt strm enc s of
        (Inl e, s1) \<Rightarrow> (Some e, None, s1)
      | (Inr sess, s1) \<Rightarrow>
          (case run_body codec b sess s1 of
             (exc, sess2, s2) \<Rightarrow>
               (case cm_exit flt exc sess2 s2 of
                  (Some e, sess3, s3) \<Rightarrow> (Some e, Some sess3, s3)
                | (None, sess3, s3) \<Rightarrow> (exc, Some sess3, s3))))"

text \<open>
  For the examples: no fault, a failing restoration, a region that writes and raises, a
  region that closes a descriptor (\<^verbatim>\<open>os.close(fd)\<close>) and completes, and a process with the
  three standard descriptors.
\<close>

definition no_faults :: faults where
  "no_faults = \<lparr>dup_fails = False, mkstemp_fails = False, capture_fails = False,
     restore_fails = False, read_fails = False, file_close_fails = False, close_fails = False\<rparr>"

definition restore_fault :: faults where
  "restore_fault = no_faults\<lparr>restore_fails := True\<rparr>"


definition close_then_done :: "nat \<Rightarrow> body" where
  "close_then_done fd = Sys (release_fd fd) (\<lambda>s. Done None)"

definition std_process :: os_state where
  "std_process = \<lparr>fds = [(0, 0), (1, 1), (2, 2)], files = (\<lambda>f. \<lparr>content = [], offset = 0\<rparr>)\<rparr>"

definition ascii_codec :: "string \<Rightarrow> byte list \<Rightarrow> error + unicode" where
  "ascii_codec enc bs = (if \<forall>b\<in>set bs. b < 128 then Inr (map unat bs) else Inl UnicodeDecodeError)"

subsection \<open>Decoding captured bytes\<close>










section \<open>Properties\<close>

subsection \<open>The function-level cache\<close>

lemma wrapper_hit: "cache s x = Some v \<Longrightarrow> wrapper f x s = (Inr v, s)"
  by (simp add: wrapper_def)

lemma wrapper_keeps_entry:
  "cache s x = Some v \<Longrightarrow> cache (snd (wrapper f y s)) x = Some v"
  by (cases "y = x") (auto simp: wrapper_def split: option.splits prod.splits sum.splits)

lemma wrapper_no_rerun:
  "cache s x = Some v \<Longrightarrow> count_list (invoked (snd (wrapper f y s))) x = count_list (invoked s) x"
  by (cases "y = x") (auto simp: wrapper_def split: option.splits prod.splits sum.splits)

lemma call_all_keeps_entry:
  "cache s x = Some v \<Longrightarrow>
   cache (call_all f ys s) x = Some v \<and>
   count_list (invoked (call_all f ys s)) x = count_list (invoked s) x"
proof (induction ys arbitrary: s)
  case Nil
  then show ?case by simp
next
  case (Cons y ys)
  from Cons.prems have "cache (snd (wrapper f y s)) x = Some v"
    by (rule wrapper_keeps_entry)
  from Cons.IH[OF this] Cons.prems show ?case
    by (simp add: wrapper_no_rerun)
qed

text \<open>
  A wrapper over a cache that agrees with a pure function returns what the function
  returns and keeps the agreement: this is what lets the lookups below be modelled by
  their bodies.
\<close>

lemma wrapper_transparent:
  assumes "\<forall>a r. cache s a = Some r \<longrightarrow> r = g a"
  shows "fst (wrapper (\<lambda>a w. (Inr (g a), w)) x s) = Inr (g x) \<and>
         (\<forall>a r. cache (snd (wrapper (\<lambda>a w. (Inr (g a), w)) x s)) a = Some r \<longrightarrow> r = g a)"
  using assms by (auto simp: wrapper_def split: option.splits)

text \<open>
  Claim C2, as the code has it. Take an argument tuple \<open>x\<close> that is not cached (the cache is
  new or has been cleared). If the underlying function returns a value \<open>v\<close> on \<open>x\<close>, the
  call runs it once, on \<open>x\<close>, returns \<open>v\<close> and stores it; the second call returns \<open>v\<close>
  and leaves the state as it is: nothing is run. The same holds after any run of further
  calls, with any arguments: the call on \<open>x\<close> returns \<open>v\<close> from the cache and the
  underlying function has not been run on \<open>x\<close> again. Once the caches are cleared, the
  next call on \<open>x\<close> runs it again. If the underlying function raises on \<open>x\<close>, the call
  runs it once and raises the same, nothing is stored, and the next call on \<open>x\<close> runs it
  again.
\<close>

theorem cached_function_invokes_once:
  "(cache s x = None \<and> f x (world s) = (Inr v, w) \<longrightarrow>
      wrapper f x s
        = (Inr v, s\<lparr>cache := (cache s)(x \<mapsto> v), world := w, invoked := invoked s @ [x]\<rparr>) \<and>
      wrapper f x (snd (wrapper f x s)) = (Inr v, snd (wrapper f x s)) \<and>
      (\<forall>ys. wrapper f x (call_all f ys (snd (wrapper f x s)))
               = (Inr v, call_all f ys (snd (wrapper f x s))) \<and>
            count_list (invoked (call_all f ys (snd (wrapper f x s)))) x
               = count_list (invoked s) x + 1) \<and>
      invoked (snd (wrapper f x (clear_function_caches (snd (wrapper f x s)))))
        = invoked s @ [x, x]) \<and>
   (cache s x = None \<and> f x (world s) = (Inl e, w) \<longrightarrow>
      wrapper f x s = (Inl e, s\<lparr>world := w, invoked := invoked s @ [x]\<rparr>) \<and>
      invoked (snd (wrapper f x (snd (wrapper f x s)))) = invoked s @ [x, x])"
proof (intro conjI impI)
  assume a: "cache s x = None \<and> f x (world s) = (Inr v, w)"
  define s1 where "s1 = s\<lparr>cache := (cache s)(x \<mapsto> v), world := w, invoked := invoked s @ [x]\<rparr>"
  from a have first: "wrapper f x s = (Inr v, s1)"
    by (simp add: wrapper_def s1_def)
  have c1: "cache s1 x = Some v" and i1: "invoked s1 = invoked s @ [x]"
    by (simp_all add: s1_def)
  have second: "wrapper f x s1 = (Inr v, s1)"
    using c1 by (rule wrapper_hit)
  have later: "wrapper f x (call_all f ys s1) = (Inr v, call_all f ys s1) \<and>
      count_list (invoked (call_all f ys s1)) x = count_list (invoked s) x + 1" for ys
  proof -
    from call_all_keeps_entry[OF c1, of f ys]
    have "cache (call_all f ys s1) x = Some v"
      and "count_list (invoked (call_all f ys s1)) x = count_list (invoked s1) x"
      by simp_all
    then show ?thesis
      by (simp add: wrapper_hit i1)
  qed
  have cleared: "invoked (snd (wrapper f x (clear_function_caches s1))) = invoked s @ [x, x]"
    by (simp add: wrapper_def clear_function_caches_def i1 split: prod.splits sum.splits)
  from first show "wrapper f x s
      = (Inr v, s\<lparr>cache := (cache s)(x \<mapsto> v), world := w, invoked := invoked s @ [x]\<rparr>)"
    by (simp add: s1_def)
  from first second show "wrapper f x (snd (wrapper f x s)) = (Inr v, snd (wrapper f x s))"
    by simp
  from first later show "\<forall>ys. wrapper f x (call_all f ys (snd (wrapper f x s)))
               = (Inr v, call_all f ys (snd (wrapper f x s))) \<and>
            count_list (invoked (call_all f ys (snd (wrapper f x s)))) x
               = count_list (invoked s) x + 1"
    by simp
  from first cleared show "invoked (snd (wrapper f x (clear_function_caches (snd (wrapper f x s)))))
      = invoked s @ [x, x]"
    by simp
next
  assume a: "cache s x = None \<and> f x (world s) = (Inl e, w)"
  then show first: "wrapper f x s = (Inl e, s\<lparr>world := w, invoked := invoked s @ [x]\<rparr>)"
    by (simp add: wrapper_def)
  from a have "cache (s\<lparr>world := w, invoked := invoked s @ [x]\<rparr>) x = None"
    by simp
  then have "invoked (snd (wrapper f x (s\<lparr>world := w, invoked := invoked s @ [x]\<rparr>)))
      = invoked s @ [x, x]"
    by (simp add: wrapper_def split: prod.splits sum.splits)
  with first show "invoked (snd (wrapper f x (snd (wrapper f x s)))) = invoked s @ [x, x]"
    by simp
qed

theorem cached_function_invokes_once_witness:
  "cache fresh_memo (6::nat) = None \<and>
   halve 6 (world fresh_memo) = (Inr 3, 1) \<and>
   fst (wrapper halve 6 fresh_memo) = Inr 3 \<and>
   invoked (snd (wrapper halve 6 fresh_memo)) = [6] \<and>
   wrapper halve 6 (snd (wrapper halve 6 fresh_memo)) = (Inr 3, snd (wrapper halve 6 fresh_memo)) \<and>
   count_list (invoked (call_all halve [4, 6, 0, 6] (snd (wrapper halve 6 fresh_memo)))) 6 = 1 \<and>
   cache fresh_memo (0::nat) = None \<and>
   halve 0 (world fresh_memo) = (Inl (Raised 0), 1) \<and>
   fst (wrapper halve 0 fresh_memo) = Inl (Raised 0) \<and>
   invoked (snd (wrapper halve 0 (snd (wrapper halve 0 fresh_memo)))) = [0, 0]"
proof -
  have miss: "cache fresh_memo (6::nat) = None" "cache fresh_memo (0::nat) = None"
    by (simp_all add: fresh_memo_def)
  have f6: "halve 6 (world fresh_memo) = (Inr 3, 1)"
    by (simp add: halve_def fresh_memo_def)
  have f0: "halve 0 (world fresh_memo) = (Inl (Raised 0), 1)"
    by (simp add: halve_def fresh_memo_def)
  note t6 = cached_function_invokes_once[where s = fresh_memo and x = 6 and f = halve and v = 3 and w = 1]
  note t0 = cached_function_invokes_once[where s = fresh_memo and x = 0 and f = halve and e = "Raised 0" and w = 1]
  from t6 miss f6 have first: "wrapper halve 6 fresh_memo
      = (Inr 3, fresh_memo\<lparr>cache := (cache fresh_memo)(6 \<mapsto> 3), world := 1,
                             invoked := invoked fresh_memo @ [6]\<rparr>)"
    by blast
  then have r: "fst (wrapper halve 6 fresh_memo) = Inr 3"
    and i: "invoked (snd (wrapper halve 6 fresh_memo)) = [6]"
    by (simp_all add: fresh_memo_def)
  from t6 miss f6
  have second: "wrapper halve 6 (snd (wrapper halve 6 fresh_memo)) = (Inr 3, snd (wrapper halve 6 fresh_memo))"
    by blast
  from t6 miss f6
  have "count_list (invoked (call_all halve [4, 6, 0, 6] (snd (wrapper halve 6 fresh_memo)))) 6
      = count_list (invoked fresh_memo) 6 + 1"
    by blast
  then have c: "count_list (invoked (call_all halve [4, 6, 0, 6] (snd (wrapper halve 6 fresh_memo)))) 6 = 1"
    by (simp add: fresh_memo_def)
  from t0 miss f0 have "wrapper halve 0 fresh_memo
      = (Inl (Raised 0), fresh_memo\<lparr>world := 1, invoked := invoked fresh_memo @ [0]\<rparr>)"
    by blast
  then have r0: "fst (wrapper halve 0 fresh_memo) = Inl (Raised 0)"
    by simp
  from t0 miss f0
  have "invoked (snd (wrapper halve 0 (snd (wrapper halve 0 fresh_memo)))) = invoked fresh_memo @ [0, 0]"
    by blast
  then have i0: "invoked (snd (wrapper halve 0 (snd (wrapper halve 0 fresh_memo)))) = [0, 0]"
    by (simp add: fresh_memo_def)
  from miss f6 f0 r i second c r0 i0 show ?thesis by simp
qed

text \<open>
  The claim as worded, for every argument tuple, fails where the underlying function
  raises: \<open>halve\<close> raises on zero, both calls on zero raise, no value is returned or
  cached, and the underlying function has been run twice.
\<close>

theorem cached_function_counterexample:
  "fst (wrapper halve 0 fresh_memo) = Inl (Raised 0) \<and>
   fst (wrapper halve 0 (snd (wrapper halve 0 fresh_memo))) = Inl (Raised 0) \<and>
   cache (snd (wrapper halve 0 (snd (wrapper halve 0 fresh_memo)))) 0 = None \<and>
   invoked (call_all halve [0, 0] fresh_memo) = [0, 0] \<and>
   count_list (invoked (call_all halve [0, 0] fresh_memo)) 0 = 2"
  by (simp add: wrapper_def halve_def fresh_memo_def)

subsection \<open>Method caches: selective clearing\<close>

lemma delattr_shrinks:
  "delattr obj n = (r, obj') \<Longrightarrow>
   class_names obj' = class_names obj \<and> attr_names obj' \<subseteq> attr_names obj"
  by (auto simp: delattr_def attr_names_def split: if_splits)

lemma hasattr_mono:
  "class_names obj' = class_names obj \<Longrightarrow> attr_names obj' \<subseteq> attr_names obj \<Longrightarrow>
   hasattr obj' g \<Longrightarrow> hasattr obj g"
  by (auto simp: hasattr_def)

lemma find_cache_attributes_loop_set:
  "set (find_cache_attributes_loop names) = {(n, g). n \<in> set names \<and> cache_name_match n = Some g}"
  by (induction names) (auto split: option.splits)

lemma find_cache_attributes_loop_distinct:
  "distinct names \<Longrightarrow> distinct (map fst (find_cache_attributes_loop names))"
  by (induction names) (auto simp: find_cache_attributes_loop_set split: option.splits)

lemma dir_obj_set: "set (dir_obj obj) = attr_names obj \<union> set (class_names obj)"
  by (simp add: dir_obj_def attr_names_def)

lemma dir_obj_distinct: "distinct (dir_obj obj)"
  by (simp add: dir_obj_def)

text \<open>Whatever the outcome, the loop only filters the instance dictionary.\<close>

lemma clear_loop_filters:
  "clear_method_caches_loop ps obj = (r, obj') \<Longrightarrow>
   class_names obj' = class_names obj \<and>
   (\<exists>D. attrs obj' = filter (\<lambda>kv. fst kv \<notin> D) (attrs obj) \<and>
        D \<subseteq> {n. \<exists>g. (n, g) \<in> set ps \<and> hasattr obj g})"
proof (induction ps arbitrary: obj)
  case Nil
  then have "obj' = obj" by simp
  then show ?case by (auto intro: exI[of _ "{}"])
next
  case (Cons p ps)
  obtain n g where p: "p = (n, g)" by (cases p)
  show ?case
  proof (cases "hasattr obj g \<and> n \<in> attr_names obj")
    case True
    define obj1 where "obj1 = obj\<lparr>attrs := filter (\<lambda>kv. fst kv \<noteq> n) (attrs obj)\<rparr>"
    from True Cons.prems have run: "clear_method_caches_loop ps obj1 = (r, obj')"
      by (simp add: p delattr_def obj1_def)
    from Cons.IH[OF run] obtain D where
      c: "class_names obj' = class_names obj1"
      and a: "attrs obj' = filter (\<lambda>kv. fst kv \<notin> D) (attrs obj1)"
      and d: "D \<subseteq> {n. \<exists>g. (n, g) \<in> set ps \<and> hasattr obj1 g}"
      by blast
    have m: "\<And>g'. hasattr obj1 g' \<Longrightarrow> hasattr obj g'"
      by (auto simp: hasattr_def obj1_def attr_names_def)
    have a': "attrs obj' = filter (\<lambda>kv. fst kv \<notin> insert n D) (attrs obj)"
      unfolding a obj1_def by (auto intro: filter_cong)
    have d': "insert n D \<subseteq> {n'. \<exists>g'. (n', g') \<in> set (p # ps) \<and> hasattr obj g'}"
      using d m True p by auto
    from c a' d' show ?thesis
      unfolding obj1_def by (intro conjI exI[of _ "insert n D"]) simp_all
  next
    case False
    show ?thesis
    proof (cases "hasattr obj g")
      case True
      with False Cons.prems have "obj' = obj"
        by (simp add: p delattr_def)
      then show ?thesis by (auto intro: exI[of _ "{}"])
    next
      case False
      with Cons.prems have run: "clear_method_caches_loop ps obj = (r, obj')"
        by (simp add: p)
      from Cons.IH[OF run] obtain D where
        c: "class_names obj' = class_names obj"
        and a: "attrs obj' = filter (\<lambda>kv. fst kv \<notin> D) (attrs obj)"
        and d: "D \<subseteq> {n. \<exists>g. (n, g) \<in> set ps \<and> hasattr obj g}"
        by blast
      from d have "D \<subseteq> {n'. \<exists>g'. (n', g') \<in> set (p # ps) \<and> hasattr obj g'}"
        by auto
      with c a show ?thesis by blast
    qed
  qed
qed

text \<open>
  When every listed cache attribute with a resolving method is the instance's own, the
  loop raises nothing, and a listed attribute whose method resolves at the end is gone.
\<close>

lemma clear_loop_removes:
  "distinct (map fst ps) \<Longrightarrow>
   \<forall>(n, g)\<in>set ps. hasattr obj g \<longrightarrow> n \<in> attr_names obj \<Longrightarrow>
   clear_method_caches_loop ps obj = (r, obj') \<Longrightarrow>
   r = None \<and> (\<forall>(n, g)\<in>set ps. hasattr obj' g \<longrightarrow> n \<notin> attr_names obj')"
proof (induction ps arbitrary: obj)
  case Nil
  then show ?case by simp
next
  case (Cons p ps)
  obtain n g where p: "p = (n, g)" by (cases p)
  from Cons.prems(1) have dist: "distinct (map fst ps)" and fresh: "n \<notin> fst ` set ps"
    by (simp_all add: p)
  show ?case
  proof (cases "hasattr obj g")
    case True
    with Cons.prems(2) have own: "n \<in> attr_names obj" by (simp add: p)
    define obj1 where "obj1 = obj\<lparr>attrs := filter (\<lambda>kv. fst kv \<noteq> n) (attrs obj)\<rparr>"
    from True own Cons.prems(3) have run: "clear_method_caches_loop ps obj1 = (r, obj')"
      by (simp add: p delattr_def obj1_def)
    have gone: "n \<notin> attr_names obj1"
      by (auto simp: obj1_def attr_names_def)
    have keep: "\<And>n'. n' \<noteq> n \<Longrightarrow> n' \<in> attr_names obj \<Longrightarrow> n' \<in> attr_names obj1"
      by (auto simp: obj1_def attr_names_def)
    have m: "\<And>g'. hasattr obj1 g' \<Longrightarrow> hasattr obj g'"
      by (auto simp: hasattr_def obj1_def attr_names_def)
    have pre: "\<forall>(n', g')\<in>set ps. hasattr obj1 g' \<longrightarrow> n' \<in> attr_names obj1"
    proof (clarify)
      fix n' g' assume in_ps: "(n', g') \<in> set ps" and h: "hasattr obj1 g'"
      from in_ps fresh have "n' \<noteq> n" by force
      moreover from in_ps h m Cons.prems(2) have "n' \<in> attr_names obj" by auto
      ultimately show "n' \<in> attr_names obj1" by (rule keep)
    qed
    from Cons.IH[OF dist pre run] have res: "r = None"
      and rest: "\<forall>(n, g)\<in>set ps. hasattr obj' g \<longrightarrow> n \<notin> attr_names obj'"
      by simp_all
    from clear_loop_filters[OF run] have "attr_names obj' \<subseteq> attr_names obj1"
      by (auto simp: attr_names_def)
    with gone have "n \<notin> attr_names obj'" by blast
    with res rest show ?thesis by (simp add: p)
  next
    case False
    with Cons.prems(3) have run: "clear_method_caches_loop ps obj = (r, obj')"
      by (simp add: p)
    from Cons.prems(2) have pre: "\<forall>(n, g)\<in>set ps. hasattr obj g \<longrightarrow> n \<in> attr_names obj"
      by simp
    from Cons.IH[OF dist pre run] have res: "r = None"
      and rest: "\<forall>(n, g)\<in>set ps. hasattr obj' g \<longrightarrow> n \<notin> attr_names obj'"
      by simp_all
    from clear_loop_filters[OF run] have "class_names obj' = class_names obj"
      and "attr_names obj' \<subseteq> attr_names obj"
      by (auto simp: attr_names_def)
    with False have "\<not> hasattr obj' g"
      using hasattr_mono by blast
    with res rest show ?thesis by (simp add: p)
  qed
qed

text \<open>
  Claim C5, as the code has it. For every object, whatever the outcome of the call: the
  names of the class are untouched, the instance dictionary is filtered (what stays keeps
  its value and its place), and every attribute removed is removable, that is, its name
  follows the cache-naming convention and the method name in it resolved on the object;
  so cache-named attributes whose method name does not resolve stay, and so does every
  other attribute. When the listed cache attributes with a resolving method are the
  instance's own, as \<^verbatim>\<open>cached_method\<close> creates them, the call raises nothing, and every
  cache-named attribute whose method name still resolves on the object is removed. When
  moreover no method name is itself a cache name, the attributes removed are exactly the
  removable ones.
\<close>

theorem clear_method_caches_selective:
  assumes run: "clear_method_caches obj = (r, obj')"
  shows "class_names obj' = class_names obj \<and>
         (\<exists>D. attrs obj' = filter (\<lambda>kv. fst kv \<notin> D) (attrs obj) \<and> D \<subseteq> {n. removable obj n}) \<and>
         ((\<forall>n\<in>set (dir_obj obj). removable obj n \<longrightarrow> n \<in> attr_names obj) \<longrightarrow>
            r = None \<and>
            (\<forall>n\<in>attr_names obj. removable obj' n \<longrightarrow> n \<notin> attr_names obj') \<and>
            ((\<forall>n\<in>set (dir_obj obj). \<forall>g. cache_name_match n = Some g \<longrightarrow> cache_name_match g = None) \<longrightarrow>
               attrs obj' = filter (\<lambda>kv. \<not> removable obj (fst kv)) (attrs obj)))"
proof -
  define ps where "ps = find_cache_attributes obj"
  have ps_set: "set ps = {(n, g). n \<in> set (dir_obj obj) \<and> cache_name_match n = Some g}"
    by (simp add: ps_def find_cache_attributes_def find_cache_attributes_loop_set)
  have ps_dist: "distinct (map fst ps)"
    by (simp add: ps_def find_cache_attributes_def find_cache_attributes_loop_distinct dir_obj_distinct)
  from run have loop: "clear_method_caches_loop ps obj = (r, obj')"
    by (simp add: clear_method_caches_def ps_def)
  from clear_loop_filters[OF loop] obtain D where
    c: "class_names obj' = class_names obj"
    and a: "attrs obj' = filter (\<lambda>kv. fst kv \<notin> D) (attrs obj)"
    and d: "D \<subseteq> {n. \<exists>g. (n, g) \<in> set ps \<and> hasattr obj g}"
    by blast
  from d have d': "D \<subseteq> {n. removable obj n}"
    by (auto simp: ps_set removable_def)
  have part1: "\<exists>D. attrs obj' = filter (\<lambda>kv. fst kv \<notin> D) (attrs obj) \<and> D \<subseteq> {n. removable obj n}"
    using a d' by blast
  have part2: "r = None \<and>
      (\<forall>n\<in>attr_names obj. removable obj' n \<longrightarrow> n \<notin> attr_names obj') \<and>
      ((\<forall>n\<in>set (dir_obj obj). \<forall>g. cache_name_match n = Some g \<longrightarrow> cache_name_match g = None) \<longrightarrow>
         attrs obj' = filter (\<lambda>kv. \<not> removable obj (fst kv)) (attrs obj))"
    if own: "\<forall>n\<in>set (dir_obj obj). removable obj n \<longrightarrow> n \<in> attr_names obj"
  proof -
    from own have pre: "\<forall>(n, g)\<in>set ps. hasattr obj g \<longrightarrow> n \<in> attr_names obj"
      by (auto simp: ps_set removable_def)
    from clear_loop_removes[OF ps_dist pre loop] have res: "r = None"
      and gone: "\<forall>(n, g)\<in>set ps. hasattr obj' g \<longrightarrow> n \<notin> attr_names obj'"
      by simp_all
    have still: "\<forall>n\<in>attr_names obj. removable obj' n \<longrightarrow> n \<notin> attr_names obj'"
    proof (intro ballI impI)
      fix n assume n: "n \<in> attr_names obj" and rm: "removable obj' n"
      from rm obtain g where g: "cache_name_match n = Some g" "hasattr obj' g"
        by (auto simp: removable_def split: option.splits)
      from n g(1) have "(n, g) \<in> set ps"
        by (simp add: ps_set dir_obj_set)
      with gone g(2) show "n \<notin> attr_names obj'" by blast
    qed
    have exact: "attrs obj' = filter (\<lambda>kv. \<not> removable obj (fst kv)) (attrs obj)"
      if plain: "\<forall>n\<in>set (dir_obj obj). \<forall>g. cache_name_match n = Some g \<longrightarrow> cache_name_match g = None"
    proof -
      have "fst kv \<notin> D \<longleftrightarrow> \<not> removable obj (fst kv)" if kv: "kv \<in> set (attrs obj)" for kv
      proof
        assume nd: "fst kv \<notin> D"
        show "\<not> removable obj (fst kv)"
        proof
          assume "removable obj (fst kv)"
          then obtain g where g: "cache_name_match (fst kv) = Some g" "hasattr obj g"
            by (auto simp: removable_def split: option.splits)
          from kv have in_obj: "fst kv \<in> attr_names obj"
            by (auto simp: attr_names_def)
          then have in_dir: "fst kv \<in> set (dir_obj obj)"
            by (simp add: dir_obj_set)
          with g(1) plain have "cache_name_match g = None" by blast
          then have "g \<notin> D"
            using d by (auto simp: ps_set)
          with g(2) have "hasattr obj' g"
            unfolding hasattr_def attr_names_def c a by auto
          moreover from in_dir g(1) have "(fst kv, g) \<in> set ps"
            by (simp add: ps_set)
          ultimately have "fst kv \<notin> attr_names obj'"
            using gone by blast
          moreover from kv nd have "fst kv \<in> attr_names obj'"
            unfolding attr_names_def a by auto
          ultimately show False by simp
        qed
      next
        assume "\<not> removable obj (fst kv)"
        with d' show "fst kv \<notin> D" by blast
      qed
      then show ?thesis
        unfolding a by (intro filter_cong) simp_all
    qed
    from res still exact show ?thesis by blast
  qed
  from c part1 part2 show ?thesis by blast
qed

theorem clear_method_caches_selective_witness:
  "clear_method_caches parser_obj
     = (None, \<lparr>attrs = [(''__gone_cache'', 2), (''state'', 3)], class_names = [''parse'', ''__init__'']\<rparr>) \<and>
   removable parser_obj ''__parse_cache'' \<and>
   \<not> removable parser_obj ''__gone_cache'' \<and>
   filter (\<lambda>kv. \<not> removable parser_obj (fst kv)) (attrs parser_obj)
     = [(''__gone_cache'', 2), (''state'', 3)]"
proof -
  define obj2 :: "nat py_object" where
    "obj2 = \<lparr>attrs = [(''__gone_cache'', 2), (''state'', 3)], class_names = [''parse'', ''__init__'']\<rparr>"
  have run: "clear_method_caches parser_obj = (None, obj2)"
    unfolding obj2_def by code_simp
  have own: "\<forall>n\<in>set (dir_obj parser_obj). removable parser_obj n \<longrightarrow> n \<in> attr_names parser_obj"
    by code_simp
  have listed: "dir_obj parser_obj = [''__gone_cache'', ''__init__'', ''__parse_cache'', ''parse'', ''state'']"
    by code_simp
  have m: "cache_name_match ''__gone_cache'' = Some ''gone''" "cache_name_match ''gone'' = None"
    "cache_name_match ''__parse_cache'' = Some ''parse''" "cache_name_match ''parse'' = None"
    "cache_name_match ''__init__'' = None" "cache_name_match ''state'' = None"
    by code_simp+
  have plain: "\<forall>n\<in>set (dir_obj parser_obj). \<forall>g. cache_name_match n = Some g \<longrightarrow> cache_name_match g = None"
    unfolding listed using m by simp
  have r1: "removable parser_obj ''__parse_cache''" by code_simp
  have r2: "\<not> removable parser_obj ''__gone_cache''" by code_simp
  from clear_method_caches_selective[OF run] own plain
  have "attrs obj2 = filter (\<lambda>kv. \<not> removable parser_obj (fst kv)) (attrs parser_obj)"
    by blast
  then have "filter (\<lambda>kv. \<not> removable parser_obj (fst kv)) (attrs parser_obj)
      = [(''__gone_cache'', 2), (''state'', 3)]"
    by (simp add: obj2_def)
  with run r1 r2 show ?thesis
    by (simp add: obj2_def)
qed

text \<open>
  The claim as worded fails on an object whose class carries a cache-named attribute:
  \<^verbatim>\<open>dir\<close> lists \<^verbatim>\<open>__f_cache\<close>, the method \<^verbatim>\<open>f\<close> resolves, and \<^verbatim>\<open>delattr\<close> on the
  instance raises \<^verbatim>\<open>AttributeError\<close>. The loop ends there, and the instance's own
  \<^verbatim>\<open>__g_cache\<close>, whose method \<^verbatim>\<open>g\<close> resolves, is not removed.
\<close>

theorem clear_method_caches_counterexample:
  "clear_method_caches shared_cache_obj = (Some AttributeError, shared_cache_obj) \<and>
   removable shared_cache_obj ''__g_cache'' \<and>
   ''__g_cache'' \<in> attr_names shared_cache_obj \<and>
   attrs (clear_instance_caches_spec shared_cache_obj) = []"
  by code_simp

subsection \<open>Package directories\<close>

lemma contains_init_loop_result:
  "fst (contains_init_loop fs d names probed)
     = (if \<exists>filename\<in>set names. os_path_exists fs (path_join d filename) \<or>
             path_join d filename \<in> set (in_archive fs)
        then Some 1 else None)"
  by (induction names arbitrary: probed) (auto simp: path_exists_def Let_def split: bool.splits)

lemma contains_init_result:
  "fst (contains_init fs d probed) = (if has_marker fs d then Some 1 else None)"
  by (simp add: contains_init_def has_marker_def contains_init_loop_result)

lemma is_package_dir_result:
  "fst (is_package_dir fs d probed) = (if has_marker fs d then Some 1 else None)"
proof -
  obtain r probed' where c: "contains_init fs d probed = (r, probed')"
    by (cases "contains_init fs d probed")
  with contains_init_result[of fs d probed] have "r = (if has_marker fs d then Some 1 else None)"
    by simp
  with c show ?thesis
    by (simp add: is_package_dir_def)
qed

lemma check_package_dir_loop_result:
  "fst (check_package_dir_loop fs names (d, ns) probed)
     = (last (d # joined_dirs d names), ns \<and> (\<forall>p\<in>set (joined_dirs d names). \<not> has_marker fs p))"
proof (induction names arbitrary: d ns probed)
  case Nil
  then show ?case by simp
next
  case (Cons n names)
  obtain r probed' where c: "contains_init fs (path_join d n) probed = (r, probed')"
    by (cases "contains_init fs (path_join d n) probed")
  with contains_init_result[of fs "path_join d n" probed]
  have r: "r = (if has_marker fs (path_join d n) then Some 1 else None)"
    by simp
  show ?case
    using Cons.IH c r by (auto simp: Let_def)
qed

text \<open>
  Claim C8. For every directory path and sequence of package names, the namespace flag
  that \<^verbatim>\<open>check_package_dir\<close> returns is true exactly when none of the directories
  obtained by joining the names one after another holds a file of \<^verbatim>\<open>PACKAGE_FILES\<close>; the
  path returned is the last of these directories. For one segment this is: true when the
  joined directory has no marker, as for an empty directory, and false when it has one.
  \<^verbatim>\<open>contains_init\<close>, which decides each directory, returns \<^verbatim>\<open>None\<close> exactly when the
  directory has no marker.
\<close>

theorem check_package_dir_namespace:
  "snd (fst (check_package_dir fs dir_path package_names probed))
     = (\<forall>p\<in>set (joined_dirs dir_path package_names). \<not> has_marker fs p) \<and>
   fst (fst (check_package_dir fs dir_path package_names probed))
     = last (dir_path # joined_dirs dir_path package_names) \<and>
   snd (fst (check_package_dir fs dir_path [name] probed)) = (\<not> has_marker fs (path_join dir_path name)) \<and>
   (fst (contains_init fs dir_path probed) = None) = (\<not> has_marker fs dir_path) \<and>
   snd (fst (check_package_dir empty_dir ''/a'' [''b''] [])) = True \<and>
   snd (fst (check_package_dir pkg_tree ''/a'' [''b''] [])) = False"
proof -
  have ci: "(fst (contains_init fs dir_path probed) = None) = (\<not> has_marker fs dir_path)"
    by (simp add: contains_init_result)
  have g: "\<And>names. fst (check_package_dir fs dir_path names probed)
      = (last (dir_path # joined_dirs dir_path names),
         \<forall>p\<in>set (joined_dirs dir_path names). \<not> has_marker fs p)"
    by (simp add: check_package_dir_def check_package_dir_loop_result)
  have e1: "snd (fst (check_package_dir empty_dir ''/a'' [''b''] [])) = True"
    by code_simp
  have e2: "snd (fst (check_package_dir pkg_tree ''/a'' [''b''] [])) = False"
    by code_simp
  from g[of package_names] g[of "[name]"] ci e1 e2 show ?thesis
    by simp
qed

theorem check_package_dir_namespace_witness:
  "snd (fst (check_package_dir pkg_tree ''/a'' [''b'', ''c''] [])) = False \<and>
   joined_dirs ''/a'' [''b'', ''c''] = [''/a/b'', ''/a/b/c''] \<and>
   has_marker pkg_tree ''/a/b'' \<and>
   fst (fst (check_package_dir pkg_tree ''/a'' [''b'', ''c''] [])) = ''/a/b/c''"
proof -
  have j: "joined_dirs ''/a'' [''b'', ''c''] = [''/a/b'', ''/a/b/c'']"
    by code_simp
  have m: "has_marker pkg_tree ''/a/b''"
    by (simp add: has_marker_def PACKAGE_FILES_def pkg_tree_def os_path_exists_def path_join_def)
  note t = check_package_dir_namespace[of pkg_tree "''/a''" "[''b'', ''c'']" "[]"]
  from t have "snd (fst (check_package_dir pkg_tree ''/a'' [''b'', ''c''] []))
      = (\<forall>p\<in>set (joined_dirs ''/a'' [''b'', ''c'']). \<not> has_marker pkg_tree p)"
    by blast
  with j m have ns: "snd (fst (check_package_dir pkg_tree ''/a'' [''b'', ''c''] [])) = False"
    by simp
  from t have "fst (fst (check_package_dir pkg_tree ''/a'' [''b'', ''c''] []))
      = last (''/a'' # joined_dirs ''/a'' [''b'', ''c''])"
    by blast
  then have "fst (fst (check_package_dir pkg_tree ''/a'' [''b'', ''c''] [])) = ''/a/b/c''"
    unfolding j by simp
  with ns j m show ?thesis by blast
qed

text \<open>
  Claim C9. For every directory path, \<^verbatim>\<open>check_package_dir\<close> with an empty sequence of
  package names hands no path to \<^verbatim>\<open>path_exists\<close> (the record of lookups is returned as
  it came) and returns the directory path unchanged with the namespace flag true,
  whatever the snapshot holds.
\<close>

theorem check_package_dir_no_names:
  "check_package_dir fs dir_path [] probed = ((dir_path, True), probed)"
  by (simp add: check_package_dir_def)

theorem check_package_dir_no_names_witness:
  "check_package_dir pkg_tree ''/a/b'' [] [] = ((''/a/b'', True), []) \<and> has_marker pkg_tree ''/a/b''"
proof -
  have m: "has_marker pkg_tree ''/a/b''"
    by (simp add: has_marker_def PACKAGE_FILES_def pkg_tree_def os_path_exists_def path_join_def)
  from check_package_dir_no_names[of pkg_tree "''/a/b''" "[]"] m show ?thesis
    by simp
qed

text \<open>
  Claim C3, as the code has it. For every file path, \<^verbatim>\<open>find_root_package_dir\<close> climbs
  from the file's parent directory through the directories that hold a marker file, and
  returns the first directory on the way that holds none, which is the directory the
  outermost package lies in; when every directory on the way holds a marker it returns
  the one that \<^verbatim>\<open>dirname\<close> maps to itself (the filesystem root, or the empty path for a
  relative one). In symbols: the result is the \<open>k+1\<close>-th ancestor for some \<open>k\<close>, the
  ancestors before it all hold a marker and differ from their child, and the result holds
  no marker or is equal to its child.
\<close>

theorem find_root_package_dir_first_unmarked:
  "\<exists>k. fst (find_root_package_dir fs file_path probed) = (dirname ^^ Suc k) file_path \<and>
       (\<forall>j<k. has_marker fs ((dirname ^^ Suc j) file_path) \<and>
              (dirname ^^ Suc j) file_path \<noteq> (dirname ^^ j) file_path) \<and>
       ((dirname ^^ Suc k) file_path = (dirname ^^ k) file_path \<or>
        \<not> has_marker fs ((dirname ^^ Suc k) file_path))"
proof (induction fs file_path probed rule: find_root_package_dir.induct)
  case (1 fs file_path probed)
  define dir where "dir = dirname file_path"
  obtain r probed' where ip: "is_package_dir fs dir probed = (r, probed')"
    by (cases "is_package_dir fs dir probed")
  with is_package_dir_result[of fs dir probed]
  have r: "r = (if has_marker fs dir then Some 1 else None)"
    by simp
  show ?case
  proof (cases "file_path = dir")
    case True
    then have "fst (find_root_package_dir fs file_path probed) = dir"
      by (subst find_root_package_dir.simps) (simp add: dir_def Let_def)
    with True show ?thesis
      by (intro exI[of _ 0]) (simp add: dir_def)
  next
    case False
    show ?thesis
    proof (cases "has_marker fs dir")
      case True
      with r have some: "r = Some 1" by simp
      from False ip some have run: "find_root_package_dir fs file_path probed
          = find_root_package_dir fs dir probed'"
        by (subst find_root_package_dir.simps) (simp add: dir_def[symmetric] Let_def)
      from "1.IH"[OF dir_def False ip[symmetric] some] obtain k where
        r: "fst (find_root_package_dir fs dir probed') = (dirname ^^ Suc k) dir"
        and up: "\<forall>j<k. has_marker fs ((dirname ^^ Suc j) dir) \<and> (dirname ^^ Suc j) dir \<noteq> (dirname ^^ j) dir"
        and stop: "(dirname ^^ Suc k) dir = (dirname ^^ k) dir \<or> \<not> has_marker fs ((dirname ^^ Suc k) dir)"
        by blast
      have shift: "\<And>n. (dirname ^^ n) dir = (dirname ^^ Suc n) file_path"
        unfolding dir_def by (simp add: funpow_swap1)
      have up': "\<forall>j<Suc k. has_marker fs ((dirname ^^ Suc j) file_path) \<and>
          (dirname ^^ Suc j) file_path \<noteq> (dirname ^^ j) file_path"
      proof (intro allI impI)
        fix j assume j: "j < Suc k"
        show "has_marker fs ((dirname ^^ Suc j) file_path) \<and>
            (dirname ^^ Suc j) file_path \<noteq> (dirname ^^ j) file_path"
        proof (cases j)
          case 0
          with True False show ?thesis by (simp add: dir_def)
        next
          case (Suc i)
          with j have "i < k" by simp
          with up have "has_marker fs ((dirname ^^ Suc i) dir) \<and> (dirname ^^ Suc i) dir \<noteq> (dirname ^^ i) dir"
            by blast
          then show ?thesis
            unfolding Suc shift .
        qed
      qed
      from r stop have r': "fst (find_root_package_dir fs file_path probed) = (dirname ^^ Suc (Suc k)) file_path"
        and stop': "(dirname ^^ Suc (Suc k)) file_path = (dirname ^^ Suc k) file_path \<or>
          \<not> has_marker fs ((dirname ^^ Suc (Suc k)) file_path)"
        unfolding run shift by simp_all
      from r' up' stop' show ?thesis
        by (intro exI[of _ "Suc k"]) blast
    next
      case nomark: False
      with r have none: "r = None" by simp
      from False ip none have "fst (find_root_package_dir fs file_path probed) = dir"
        by (subst find_root_package_dir.simps) (simp add: dir_def[symmetric] Let_def)
      with nomark show ?thesis
        by (intro exI[of _ 0]) (simp add: dir_def)
    qed
  qed
qed

theorem find_root_package_dir_first_unmarked_witness:
  "fst (find_root_package_dir pkg_tree ''/a/b/c/m.py'' []) = (dirname ^^ Suc 2) ''/a/b/c/m.py'' \<and>
   (dirname ^^ Suc 2) ''/a/b/c/m.py'' = ''/a'' \<and>
   has_marker pkg_tree ((dirname ^^ Suc 0) ''/a/b/c/m.py'') \<and>
   has_marker pkg_tree ((dirname ^^ Suc 1) ''/a/b/c/m.py'') \<and>
   \<not> has_marker pkg_tree ''/a''"
proof -
  have d: "dirname ''/a/b/c/m.py'' = ''/a/b/c''" "dirname ''/a/b/c'' = ''/a/b''"
    "dirname ''/a/b'' = ''/a''" "dirname ''/a'' = ''/''" "dirname ''/'' = ''/''"
    by code_simp+
  have m: "has_marker pkg_tree ''/a/b/c''" "has_marker pkg_tree ''/a/b''"
    "\<not> has_marker pkg_tree ''/a''" "\<not> has_marker pkg_tree ''/''"
    by (simp_all add: has_marker_def PACKAGE_FILES_def pkg_tree_def os_path_exists_def path_join_def)
  from find_root_package_dir_first_unmarked[of pkg_tree "''/a/b/c/m.py''" "[]"] obtain k where
    r: "fst (find_root_package_dir pkg_tree ''/a/b/c/m.py'' []) = (dirname ^^ Suc k) ''/a/b/c/m.py''"
    and up: "\<forall>j<k. has_marker pkg_tree ((dirname ^^ Suc j) ''/a/b/c/m.py'') \<and>
        (dirname ^^ Suc j) ''/a/b/c/m.py'' \<noteq> (dirname ^^ j) ''/a/b/c/m.py''"
    and stop: "(dirname ^^ Suc k) ''/a/b/c/m.py'' = (dirname ^^ k) ''/a/b/c/m.py'' \<or>
        \<not> has_marker pkg_tree ((dirname ^^ Suc k) ''/a/b/c/m.py'')"
    by blast
  have a: "(dirname ^^ Suc 0) ''/a/b/c/m.py'' = ''/a/b/c''" "(dirname ^^ Suc 1) ''/a/b/c/m.py'' = ''/a/b''"
    "(dirname ^^ Suc 2) ''/a/b/c/m.py'' = ''/a''" "(dirname ^^ Suc 3) ''/a/b/c/m.py'' = ''/''"
    by (simp_all add: d numeral_2_eq_2 numeral_3_eq_3)
  have "k = 2"
  proof (rule ccontr)
    assume "k \<noteq> 2"
    then consider "k = 0" | "k = 1" | "k > 2" by linarith
    then show False
    proof cases
      case 1
      with stop show False using a(1) m(1) by simp
    next
      case 2
      with stop show False using a(1,2) m(2) by simp
    next
      case 3
      with up have "has_marker pkg_tree ((dirname ^^ Suc 2) ''/a/b/c/m.py'')" by blast
      with a(3) m(3) show False by simp
    qed
  qed
  with r a m show ?thesis by simp
qed

text \<open>
  The claim as worded fails: with markers in \<^verbatim>\<open>/a/b\<close> and \<^verbatim>\<open>/a/b/c\<close> and none in
  \<^verbatim>\<open>/a\<close>, the outermost directory still marked as a package is \<^verbatim>\<open>/a/b\<close>, and the code
  returns \<^verbatim>\<open>/a\<close>, which holds no marker.
\<close>

theorem find_root_package_dir_counterexample:
  "fst (find_root_package_dir pkg_tree ''/a/b/c/m.py'' []) = ''/a'' \<and>
   find_containing_package_root_spec pkg_tree ''/a/b/c/m.py'' = ''/a/b'' \<and>
   has_marker pkg_tree ''/a/b'' \<and>
   \<not> has_marker pkg_tree ''/a''"
proof -
  have d: "dirname ''/a/b/c/m.py'' = ''/a/b/c''" "dirname ''/a/b/c'' = ''/a/b''"
    "dirname ''/a/b'' = ''/a''"
    by code_simp+
  have m: "has_marker pkg_tree ''/a/b/c''" "has_marker pkg_tree ''/a/b''"
    "\<not> has_marker pkg_tree ''/a''"
    by (simp_all add: has_marker_def PACKAGE_FILES_def pkg_tree_def os_path_exists_def path_join_def)
  have p: "fst (is_package_dir pkg_tree ''/a/b/c'' ps) = Some 1" "fst (is_package_dir pkg_tree ''/a/b'' ps) = Some 1"
    "fst (is_package_dir pkg_tree ''/a'' ps) = None" for ps
    using m by (simp_all add: is_package_dir_result)
  have step3: "fst (find_root_package_dir pkg_tree ''/a/b'' ps) = ''/a''" for ps
    apply (subst find_root_package_dir.simps)
    using p(3)[of ps] apply (auto simp: d Let_def split: prod.splits option.splits)
    done
  have step2: "fst (find_root_package_dir pkg_tree ''/a/b/c'' ps) = ''/a''" for ps
    apply (subst find_root_package_dir.simps)
    using p(2)[of ps] apply (auto simp: d Let_def step3 split: prod.splits option.splits)
    done
  have code: "fst (find_root_package_dir pkg_tree ''/a/b/c/m.py'' []) = ''/a''"
    apply (subst find_root_package_dir.simps)
    using p(1)[of "[]"] apply (auto simp: d Let_def step2 split: prod.splits option.splits)
    done
  have spec: "find_containing_package_root_spec pkg_tree ''/a/b/c/m.py'' = ''/a/b''"
    unfolding find_containing_package_root_spec_def d
    apply (subst outermost_package.simps, simp add: d m)
    apply (subst outermost_package.simps, simp add: d m)
    done
  from code spec m show ?thesis by simp
qed

subsection \<open>Versioned companion files: the lookup\<close>










subsection \<open>The capture scope: descriptors\<close>

lemma map_of_filter_key:
  "map_of (filter (\<lambda>e. fst e \<noteq> k) xs) k' = (if k' = k then None else map_of xs k')"
  by (induction xs) auto

lemma lookup_bind_fd [simp]:
  "lookup_fd (bind_fd fd f s) fd' = (if fd' = fd then Some f else lookup_fd s fd')"
  by (simp add: lookup_fd_def bind_fd_def map_of_filter_key)

lemma lookup_release_fd [simp]:
  "lookup_fd (release_fd fd s) fd' = (if fd' = fd then None else lookup_fd s fd')"
  by (simp add: lookup_fd_def release_fd_def map_of_filter_key)

lemma lookup_files_update [simp]: "lookup_fd (s\<lparr>files := F\<rparr>) fd = lookup_fd s fd"
  by (simp add: lookup_fd_def)

lemma files_bind_fd [simp]: "files (bind_fd fd f s) = files s"
  by (simp add: bind_fd_def)

lemma files_release_fd [simp]: "files (release_fd fd s) = files s"
  by (simp add: release_fd_def)

lemma lowest_free_fresh: "lowest_free used = Some n \<Longrightarrow> n \<notin> set used"
  by (auto simp: lowest_free_def find_Some_iff)

lemma lowest_free_exists: "\<exists>n. lowest_free used = Some n"
proof (rule ccontr)
  assume "\<not> (\<exists>n. lowest_free used = Some n)"
  then have "lowest_free used = None" by simp
  then have "\<forall>n\<in>set [0..<Suc (length used)]. n \<in> set used"
    unfolding lowest_free_def find_None_iff by blast
  then have "{0..<Suc (length used)} \<subseteq> set used"
    by (metis set_upt subsetI)
  then have "card {0..<Suc (length used)} \<le> card (set used)"
    by (intro card_mono) simp_all
  moreover have "card (set used) \<le> length used" by (rule card_length)
  ultimately show False by simp
qed

lemma lowest_free_fd_closed: "lowest_free (map fst (fds s)) = Some n \<Longrightarrow> lookup_fd s n = None"
proof -
  assume "lowest_free (map fst (fds s)) = Some n"
  then have "n \<notin> set (map fst (fds s))"
    by (rule lowest_free_fresh)
  then have "n \<notin> fst ` set (fds s)"
    by simp
  then show ?thesis
    by (simp add: lookup_fd_def map_of_eq_None_iff)
qed

lemma lowest_free_file_unused:
  "lowest_free (map snd (fds s)) = Some f \<Longrightarrow> lookup_fd s fd \<noteq> Some f"
proof
  assume free: "lowest_free (map snd (fds s)) = Some f" and "lookup_fd s fd = Some f"
  then have "(fd, f) \<in> set (fds s)"
    by (simp add: lookup_fd_def map_of_SomeD)
  then have "f \<in> set (map snd (fds s))" by force
  with lowest_free_fresh[OF free] show False by simp
qed

text \<open>The \<^verbatim>\<open>finally\<close> clause leaves the duplicate closed and never loses a pending exception.\<close>

lemma finally_close_closed: "lookup_fd (snd (finally_close flt p orig s)) orig = None"
  by (auto simp: finally_close_def os_close_def split: option.splits)

lemma finally_close_pending:
  "fst (finally_close flt (Some e) orig s) = Some e \<or>
   fst (finally_close flt (Some e) orig s) = Some (OSError Close)"
  by (auto simp: finally_close_def os_close_def split: option.splits)

lemma file_exit_pending:
  "fst (file_exit flt (Some e) sess s) = Some e \<or>
   fst (file_exit flt (Some e) sess s) = Some (OSError File_close)"
  by (auto simp: file_exit_def os_close_def split: option.splits)

lemma file_exit_session:
  "file_exit flt p sess s = (p', sess', s') \<Longrightarrow>
   sess' = sess\<lparr>temp_closed := True\<rparr>"
  by (auto simp: file_exit_def split: if_splits option.splits prod.splits)

lemma unwind_closed:
  "unwind flt p sess s = (p', sess', s') \<Longrightarrow>
   lookup_fd s' (orig_stream sess) = None \<and> sess' = sess\<lparr>temp_closed := True\<rparr>"
proof -
  assume u: "unwind flt p sess s = (p', sess', s')"
  obtain p1 sess1 s1 where f: "file_exit flt p sess s = (p1, sess1, s1)"
    by (cases "file_exit flt p sess s")
  from file_exit_session[OF f] have s1: "sess1 = sess\<lparr>temp_closed := True\<rparr>" .
  from u f have "s' = snd (finally_close flt p1 (orig_stream sess1) s1)" and "sess' = sess1"
    by (auto simp: unwind_def split: prod.splits)
  with s1 finally_close_closed[of flt p1 "orig_stream sess1" s1] show ?thesis
    by simp
qed

lemma unwind_pending:
  "fst (unwind flt (Some e) sess s) \<in> {Some e, Some (OSError File_close), Some (OSError Close)}"
proof -
  obtain p1 sess1 s1 where f: "file_exit flt (Some e) sess s = (p1, sess1, s1)"
    by (cases "file_exit flt (Some e) sess s")
  with file_exit_pending[of flt e sess s] have "p1 = Some e \<or> p1 = Some (OSError File_close)"
    by simp
  moreover have "fst (unwind flt (Some e) sess s) = fst (finally_close flt p1 (orig_stream sess1) s1)"
    using f by (simp add: unwind_def split: prod.splits)
  ultimately show ?thesis
    using finally_close_pending[of flt e "orig_stream sess1" s1]
      finally_close_pending[of flt "OSError File_close" "orig_stream sess1" s1]
    by auto
qed

text \<open>The protected region cannot reach the locals of the generator.\<close>

lemma read_output_locals:
  "read_output fault sess s = (r, sess', s') \<Longrightarrow>
   stream sess' = stream sess \<and> orig_stream sess' = orig_stream sess \<and>
   temp_file sess' = temp_file sess \<and> encoding sess' = encoding sess \<and>
   temp_closed sess' = temp_closed sess"
  by (auto simp: read_output_def split: if_splits prod.splits sum.splits)

lemma get_output_locals:
  "get_output codec fault sess s = (r, sess', s') \<Longrightarrow>
   stream sess' = stream sess \<and> orig_stream sess' = orig_stream sess \<and>
   temp_file sess' = temp_file sess \<and> encoding sess' = encoding sess \<and>
   temp_closed sess' = temp_closed sess"
proof -
  assume g: "get_output codec fault sess s = (r, sess', s')"
  obtain r0 sess0 s0 where ro: "read_output fault sess s = (r0, sess0, s0)"
    by (cases "read_output fault sess s")
  with g have "sess' = sess0"
    by (auto simp: get_output_def split: sum.splits option.splits if_splits)
  with read_output_locals[OF ro] show ?thesis by simp
qed

lemma run_body_locals:
  "run_body codec b sess s = (exc, sess', s') \<Longrightarrow>
   stream sess' = stream sess \<and> orig_stream sess' = orig_stream sess \<and>
   temp_file sess' = temp_file sess \<and> encoding sess' = encoding sess \<and>
   temp_closed sess' = temp_closed sess"
proof (induction b arbitrary: sess s)
  case (Done e)
  then show ?case by simp
next
  case (Sys effect k)
  from Sys.prems have "run_body codec (k s) sess (effect s) = (exc, sess', s')"
    by simp
  from Sys.IH[OF _ this] show ?case by simp
next
  case (Retrieve fault k)
  obtain r sess1 s1 where g: "get_output codec fault sess s = (r, sess1, s1)"
    by (cases "get_output codec fault sess s")
  with Retrieve.prems have "run_body codec (k r) sess1 s1 = (exc, sess', s')"
    by simp
  from Retrieve.IH[OF _ this] get_output_locals[OF g] show ?case by simp
qed

text \<open>What a scope that has been entered looks like.\<close>

lemma captured_fd_start_entered:
  assumes start: "captured_fd_start flt strm enc s = (Inr sess, s1)"
  shows "\<exists>A T. lookup_fd s strm = Some A \<and>
           sess = \<lparr>stream = strm, encoding = enc, orig_stream = orig_stream sess,
                   temp_file = temp_file sess, temp_closed = False, saved_output = []\<rparr> \<and>
           os_dup (dup_fails flt) strm s = (Inr (orig_stream sess), bind_fd (orig_stream sess) A s) \<and>
           lookup_fd s (orig_stream sess) = None \<and> lookup_fd s (temp_file sess) = None \<and>
           orig_stream sess \<noteq> strm \<and> temp_file sess \<noteq> strm \<and> temp_file sess \<noteq> orig_stream sess \<and>
           T \<noteq> A \<and>
           s1 = bind_fd strm T (bind_fd (temp_file sess) T
                  ((bind_fd (orig_stream sess) A s)\<lparr>files := (files s)(T := \<lparr>content = [], offset = 0\<rparr>)\<rparr>))"
proof -
  obtain A where A: "lookup_fd s strm = Some A"
    using start by (cases "lookup_fd s strm") (auto simp: captured_fd_start_def os_dup_def)
  have nd: "\<not> dup_fails flt"
    using start A by (auto simp: captured_fd_start_def os_dup_def)
  obtain orig where orig: "lowest_free (map fst (fds s)) = Some orig"
    using lowest_free_exists by blast
  define s0 where "s0 = bind_fd orig A s"
  have dup: "os_dup (dup_fails flt) strm s = (Inr orig, s0)"
    using A nd orig by (simp add: os_dup_def s0_def)
  have orig_closed: "lookup_fd s orig = None"
    using orig by (rule lowest_free_fd_closed)
  with A have orig_ne: "orig \<noteq> strm" by auto
  have nm: "\<not> mkstemp_fails flt"
    using start dup by (auto simp: captured_fd_start_def temporary_file_def split: prod.splits)
  obtain tf where tf: "lowest_free (map fst (fds s0)) = Some tf"
    using lowest_free_exists by blast
  obtain T where T: "lowest_free (map snd (fds s0)) = Some T"
    using lowest_free_exists by blast
  define s0' where "s0' = bind_fd tf T (s0\<lparr>files := (files s0)(T := \<lparr>content = [], offset = 0\<rparr>)\<rparr>)"
  have tmp: "temporary_file (mkstemp_fails flt) s0 = (Inr tf, s0')"
    using nm tf T by (simp add: temporary_file_def s0'_def)
  have tf_closed0: "lookup_fd s0 tf = None"
    using tf by (rule lowest_free_fd_closed)
  then have tf_ne_orig: "tf \<noteq> orig" and tf_closed: "lookup_fd s tf = None"
    by (auto simp: s0_def split: if_splits)
  with A have tf_ne: "tf \<noteq> strm" by auto
  have "lookup_fd s0 orig \<noteq> Some T"
    using T by (rule lowest_free_file_unused)
  then have TA: "T \<noteq> A" by (simp add: s0_def)
  define sess0 where "sess0 = \<lparr>stream = strm, encoding = enc, orig_stream = orig, temp_file = tf,
      temp_closed = False, saved_output = []\<rparr>"
  have open_tf: "lookup_fd s0' tf = Some T"
    by (simp add: s0'_def)
  have nc: "\<not> capture_fails flt"
  proof
    assume "capture_fails flt"
    with open_tf have "os_dup2 (capture_fails flt) Dup2_capture tf strm s0' = (Some (OSError Dup2_capture), s0')"
      by (simp add: os_dup2_def)
    with start dup tmp show False
      by (simp add: captured_fd_start_def Let_def split: prod.splits)
  qed
  with open_tf have cap: "os_dup2 (capture_fails flt) Dup2_capture tf strm s0' = (None, bind_fd strm T s0')"
    by (simp add: os_dup2_def)
  from start dup tmp cap have res: "sess = sess0" "s1 = bind_fd strm T s0'"
    by (simp_all add: captured_fd_start_def Let_def sess0_def)
  have f0: "files s0 = files s" by (simp add: s0_def)
  show ?thesis
    apply (rule exI[of _ A], rule exI[of _ T])
    using A dup orig_closed tf_closed orig_ne tf_ne tf_ne_orig TA
    apply (simp add: res sess0_def s0'_def f0)
    apply (simp add: s0_def)
    done
qed






text \<open>However the second run of the generator ends, the duplicate is closed after it.\<close>

lemma captured_fd_resume_closed:
  assumes "captured_fd_resume flt sess s = (e, sess', s')"
  shows "lookup_fd s' (orig_stream sess) = None \<and> temp_closed sess' \<and>
         orig_stream sess' = orig_stream sess \<and> temp_file sess' = temp_file sess \<and>
         stream sess' = stream sess"
proof -
  obtain r s1 where d: "os_dup2 (restore_fails flt) Dup2_restore (orig_stream sess) (stream sess) s = (r, s1)"
    by (cases "os_dup2 (restore_fails flt) Dup2_restore (orig_stream sess) (stream sess) s")
  show ?thesis
  proof (cases r)
    case (Some e0)
    obtain p sessu su where u: "unwind flt (Some e0) sess s1 = (p, sessu, su)"
      by (cases "unwind flt (Some e0) sess s1")
    with assms d Some have "sess' = sessu" "s' = su"
      by (simp_all add: captured_fd_resume_def)
    with unwind_closed[OF u] show ?thesis by simp
  next
    case None
    obtain ro sess1 s2 where ro: "read_output (read_fails flt) sess s1 = (ro, sess1, s2)"
      by (cases "read_output (read_fails flt) sess s1")
    note l = read_output_locals[OF ro]
    show ?thesis
    proof (cases ro)
      case (Inl e0)
      obtain p sessu su where u: "unwind flt (Some e0) sess1 s2 = (p, sessu, su)"
        by (cases "unwind flt (Some e0) sess1 s2")
      with assms d None ro Inl have "sess' = sessu" "s' = su"
        by (simp_all add: captured_fd_resume_def)
      with unwind_closed[OF u] l show ?thesis by simp
    next
      case (Inr data)
      obtain p sessu su where u: "unwind flt None sess1 s2 = (p, sessu, su)"
        by (cases "unwind flt None sess1 s2")
      with assms d None ro Inr have "sess' = sessu" "s' = su"
        by (simp_all add: captured_fd_resume_def)
      with unwind_closed[OF u] l show ?thesis by simp
    qed
  qed
qed


text \<open>
  Which exception leaves the two cleanups when one is pending: the later ones replace it.
  No descriptor but the two of the scope is touched.
\<close>

lemma unwind_replaces:
  assumes "\<not> temp_closed sess" and "temp_file sess \<noteq> orig_stream sess"
  shows "\<exists>s'. unwind flt (Some e) sess s
      = (Some (if lookup_fd s (orig_stream sess) = None \<or> close_fails flt then OSError Close
               else if lookup_fd s (temp_file sess) = None \<or> file_close_fails flt then OSError File_close
               else e),
         sess\<lparr>temp_closed := True\<rparr>, s') \<and>
      (\<forall>fd. fd \<noteq> temp_file sess \<and> fd \<noteq> orig_stream sess \<longrightarrow> lookup_fd s' fd = lookup_fd s fd)"
  using assms
  by (cases "lookup_fd s (temp_file sess)"; cases "lookup_fd s (orig_stream sess)")
     (auto simp: unwind_def file_exit_def finally_close_def os_close_def)

text \<open>
  Claim C6, as the code has it. Take any protected region, any failing system calls and
  any starting state. If \<^verbatim>\<open>os.dup\<close> fails there is no duplicate: its error leaves the
  statement and the state is untouched. If it returns the duplicate \<open>orig\<close>, then \<open>orig\<close>
  is open at that point and closed when the statement is left, whichever way that is: the
  scope could not be entered, the region completed, the region raised, or the exit itself
  raised. When the scope was entered and \<^verbatim>\<open>os.dup2(orig_stream, stream)\<close> fails at the
  exit, the duplicate is closed all the same, the stream descriptor stays bound as the
  region left it, and an \<^verbatim>\<open>OSError\<close> leaves the statement, which is the last one raised:
  that of \<^verbatim>\<open>os.close(orig_stream)\<close> if the region has closed the duplicate or that close
  fails; otherwise that of closing the temporary file if the region has closed its
  descriptor or that close fails; otherwise, and only then, that of the failed restoration.
\<close>

theorem captured_fd_closes_duplicate:
  "(\<forall>e s0. os_dup (dup_fails flt) strm s = (Inl e, s0) \<longrightarrow>
       with_captured_fd codec flt strm enc b s = (Some e, None, s)) \<and>
   (\<forall>orig s0. os_dup (dup_fails flt) strm s = (Inr orig, s0) \<longrightarrow>
       lookup_fd s0 orig \<noteq> None \<and>
       lookup_fd (snd (snd (with_captured_fd codec flt strm enc b s))) orig = None) \<and>
   (\<forall>sess s1 exc sess2 s2 e s3.
       cm_enter flt strm enc s = (Inr sess, s1) \<and>
       run_body codec b sess s1 = (exc, sess2, s2) \<and>
       os_dup2 (restore_fails flt) Dup2_restore (orig_stream sess2) (stream sess2) s2 = (Some e, s3) \<longrightarrow>
       e = OSError Dup2_restore \<and>
       lookup_fd (snd (snd (with_captured_fd codec flt strm enc b s))) (orig_stream sess) = None \<and>
       lookup_fd (snd (snd (with_captured_fd codec flt strm enc b s))) strm = lookup_fd s2 strm \<and>
       fst (with_captured_fd codec flt strm enc b s)
         = Some (if lookup_fd s2 (orig_stream sess) = None \<or> close_fails flt then OSError Close
                 else if lookup_fd s2 (temp_file sess) = None \<or> file_close_fails flt
                      then OSError File_close
                 else OSError Dup2_restore))"
proof (intro conjI allI impI)
  fix e s0
  assume d: "os_dup (dup_fails flt) strm s = (Inl e, s0)"
  then have "s0 = s"
    by (auto simp: os_dup_def split: option.splits if_splits)
  with d show "with_captured_fd codec flt strm enc b s = (Some e, None, s)"
    by (simp add: with_captured_fd_def cm_enter_def captured_fd_start_def)
next
  fix orig s0
  assume d: "os_dup (dup_fails flt) strm s = (Inr orig, s0)"
  then show "lookup_fd s0 orig \<noteq> None"
    by (auto simp: os_dup_def split: option.splits if_splits)
  show "lookup_fd (snd (snd (with_captured_fd codec flt strm enc b s))) orig = None"
  proof (cases "temporary_file (mkstemp_fails flt) s0")
    case (Pair r s1)
    show ?thesis
    proof (cases r)
      case (Inl e)
      with d Pair have "snd (snd (with_captured_fd codec flt strm enc b s))
          = snd (finally_close flt (Some e) orig s1)"
        by (simp add: with_captured_fd_def cm_enter_def captured_fd_start_def split: prod.splits)
      then show ?thesis by (simp add: finally_close_closed)
    next
      case (Inr tf)
      define sess where "sess = \<lparr>stream = strm, encoding = enc, orig_stream = orig, temp_file = tf,
          temp_closed = False, saved_output = []\<rparr>"
      obtain c s2 where cap: "os_dup2 (capture_fails flt) Dup2_capture tf strm s1 = (c, s2)"
        by (cases "os_dup2 (capture_fails flt) Dup2_capture tf strm s1")
      show ?thesis
      proof (cases c)
        case (Some e)
        obtain p sessu su where u: "unwind flt (Some e) sess s2 = (p, sessu, su)"
          by (cases "unwind flt (Some e) sess s2")
        with d Pair Inr cap Some have "snd (snd (with_captured_fd codec flt strm enc b s)) = su"
          by (simp add: with_captured_fd_def cm_enter_def captured_fd_start_def sess_def)
        with unwind_closed[OF u] show ?thesis by (simp add: sess_def)
      next
        case None
        with d Pair Inr cap have enter: "cm_enter flt strm enc s = (Inr sess, s2)"
          by (simp add: cm_enter_def captured_fd_start_def sess_def)
        obtain exc sessb sb where body: "run_body codec b sess s2 = (exc, sessb, sb)"
          by (cases "run_body codec b sess s2")
        obtain e sess3 s3 where res: "captured_fd_resume flt sessb sb = (e, sess3, s3)"
          by (cases "captured_fd_resume flt sessb sb")
        from enter body res have "snd (snd (with_captured_fd codec flt strm enc b s)) = s3"
          by (simp add: with_captured_fd_def cm_exit_def)
        with captured_fd_resume_closed[OF res] run_body_locals[OF body] show ?thesis
          by (simp add: sess_def)
      qed
    qed
  qed
next
  fix sess s1 exc sess2 s2 e s3
  assume a: "cm_enter flt strm enc s = (Inr sess, s1) \<and>
       run_body codec b sess s1 = (exc, sess2, s2) \<and>
       os_dup2 (restore_fails flt) Dup2_restore (orig_stream sess2) (stream sess2) s2 = (Some e, s3)"
  then have enter: "cm_enter flt strm enc s = (Inr sess, s1)"
    and body: "run_body codec b sess s1 = (exc, sess2, s2)"
    and restore: "os_dup2 (restore_fails flt) Dup2_restore (orig_stream sess2) (stream sess2) s2 = (Some e, s3)"
    by simp_all
  note loc = run_body_locals[OF body]
  from restore show e: "e = OSError Dup2_restore"
    by (auto simp: os_dup2_def split: option.splits if_splits)
  from restore have s3: "s3 = s2"
    by (auto simp: os_dup2_def split: option.splits if_splits)
  from enter captured_fd_start_entered[of flt strm enc s sess s1]
  have apart: "temp_file sess \<noteq> orig_stream sess" "orig_stream sess \<noteq> strm" "temp_file sess \<noteq> strm"
    and opened: "\<not> temp_closed sess"
    by (auto simp: cm_enter_def) (metis session.select_convs(5))
  define e' where "e' = (if lookup_fd s2 (orig_stream sess) = None \<or> close_fails flt then OSError Close
      else if lookup_fd s2 (temp_file sess) = None \<or> file_close_fails flt then OSError File_close
      else e)"
  from unwind_replaces[of sess2 flt e s2] apart opened loc obtain su where
    u: "unwind flt (Some e) sess2 s2 = (Some e', sess2\<lparr>temp_closed := True\<rparr>, su)"
    and kept: "\<forall>fd. fd \<noteq> temp_file sess \<and> fd \<noteq> orig_stream sess \<longrightarrow> lookup_fd su fd = lookup_fd s2 fd"
    unfolding e'_def by auto
  have ne: "e' \<noteq> StopIteration" "e' \<noteq> GeneratorExit"
    by (simp_all add: e'_def e)
  from restore u s3 have res: "captured_fd_resume flt sess2 s2 = (e', sess2\<lparr>temp_closed := True\<rparr>, su)"
    by (simp add: captured_fd_resume_def)
  with enter body ne
  have w: "with_captured_fd codec flt strm enc b s = (Some e', Some (sess2\<lparr>temp_closed := True\<rparr>), su)"
    by (simp add: with_captured_fd_def cm_exit_def)
  from captured_fd_resume_closed[OF res] loc w
  show "lookup_fd (snd (snd (with_captured_fd codec flt strm enc b s))) (orig_stream sess) = None"
    by simp
  from w kept apart
  show "lookup_fd (snd (snd (with_captured_fd codec flt strm enc b s))) strm = lookup_fd s2 strm"
    by simp
  from w show "fst (with_captured_fd codec flt strm enc b s)
      = Some (if lookup_fd s2 (orig_stream sess) = None \<or> close_fails flt then OSError Close
              else if lookup_fd s2 (temp_file sess) = None \<or> file_close_fails flt
                   then OSError File_close
              else OSError Dup2_restore)"
    by (simp add: e'_def e)
qed

theorem captured_fd_closes_duplicate_witness:
  "fst (os_dup (dup_fails restore_fault) 2 std_process) = Inr 3 \<and>
   lookup_fd (snd (snd (with_captured_fd ascii_codec restore_fault 2 None (Done None) std_process))) 3 = None \<and>
   lookup_fd (snd (snd (with_captured_fd ascii_codec restore_fault 2 None (Done None) std_process))) 2 = Some 3 \<and>
   fst (with_captured_fd ascii_codec restore_fault 2 None (Done None) std_process)
     = Some (OSError Dup2_restore) \<and>
   lookup_fd (snd (snd (with_captured_fd ascii_codec no_faults 2 None (Done (Some (Raised 7))) std_process))) 3
     = None \<and>
   fst (os_dup (dup_fails no_faults) 7 std_process) = Inl (OSError Dup) \<and>
   fst (with_captured_fd ascii_codec no_faults 7 None (Done None) std_process) = Some (OSError Dup)"
proof -
  define sess where "sess = \<lparr>stream = 2, encoding = None, orig_stream = 3, temp_file = 4,
      temp_closed = False, saved_output = []\<rparr>"
  define s1 where "s1 = snd (cm_enter restore_fault 2 None std_process)"
  have d: "fst (os_dup (dup_fails restore_fault) 2 std_process) = Inr 3"
    by code_simp
  then have dup: "os_dup (dup_fails restore_fault) 2 std_process
      = (Inr 3, snd (os_dup (dup_fails restore_fault) 2 std_process))"
    by (metis prod.collapse)
  have "fst (os_dup (dup_fails no_faults) 2 std_process) = Inr 3"
    by code_simp
  then have dup': "os_dup (dup_fails no_faults) 2 std_process
      = (Inr 3, snd (os_dup (dup_fails no_faults) 2 std_process))"
    by (metis prod.collapse)
  have "fst (cm_enter restore_fault 2 None std_process) = Inr sess"
    unfolding sess_def by code_simp
  then have enter: "cm_enter restore_fault 2 None std_process = (Inr sess, s1)"
    unfolding s1_def by (metis prod.collapse)
  have body: "run_body ascii_codec (Done None) sess s1 = (None, sess, s1)"
    by simp
  have o: "lookup_fd s1 3 = Some 2" and t: "lookup_fd s1 4 = Some 3" and l: "lookup_fd s1 2 = Some 3"
    unfolding s1_def by code_simp+
  have restore: "os_dup2 (restore_fails restore_fault) Dup2_restore (orig_stream sess) (stream sess) s1
      = (Some (OSError Dup2_restore), s1)"
    using o by (simp add: os_dup2_def restore_fault_def sess_def)
  have q: "\<not> file_close_fails restore_fault" "\<not> close_fails restore_fault"
    by (simp_all add: restore_fault_def no_faults_def)
  note t1 = captured_fd_closes_duplicate[of restore_fault 2 std_process ascii_codec None "Done None"]
  note t2 = captured_fd_closes_duplicate[of no_faults 2 std_process ascii_codec None "Done (Some (Raised 7))"]
  from t1 dup
  have c1: "lookup_fd (snd (snd (with_captured_fd ascii_codec restore_fault 2 None (Done None) std_process))) 3 = None"
    by blast
  from t1 enter body restore
  have "lookup_fd (snd (snd (with_captured_fd ascii_codec restore_fault 2 None (Done None) std_process))) 2
        = lookup_fd s1 2 \<and>
      fst (with_captured_fd ascii_codec restore_fault 2 None (Done None) std_process)
        = Some (if lookup_fd s1 (orig_stream sess) = None \<or> close_fails restore_fault then OSError Close
                else if lookup_fd s1 (temp_file sess) = None \<or> file_close_fails restore_fault
                     then OSError File_close
                else OSError Dup2_restore)"
    by blast
  with o t l q
  have c2: "lookup_fd (snd (snd (with_captured_fd ascii_codec restore_fault 2 None (Done None) std_process))) 2
        = Some 3"
    "fst (with_captured_fd ascii_codec restore_fault 2 None (Done None) std_process)
      = Some (OSError Dup2_restore)"
    by (simp_all add: sess_def)
  from t2 dup'
  have c3: "lookup_fd (snd (snd (with_captured_fd ascii_codec no_faults 2 None (Done (Some (Raised 7))) std_process))) 3
      = None"
    by blast
  have d7: "os_dup (dup_fails no_faults) 7 std_process = (Inl (OSError Dup), std_process)"
    by (simp add: os_dup_def lookup_fd_def std_process_def)
  note t3 = captured_fd_closes_duplicate[of no_faults 7 std_process ascii_codec None "Done None"]
  from t3 d7
  have "with_captured_fd ascii_codec no_faults 7 None (Done None) std_process
      = (Some (OSError Dup), None, std_process)"
    by blast
  then have c4: "fst (with_captured_fd ascii_codec no_faults 7 None (Done None) std_process)
      = Some (OSError Dup)"
    by simp
  from d c1 c2 c3 d7 c4 show ?thesis by simp
qed

text \<open>
  The claim as worded fails where the restoration fails because the region has closed the
  duplicate (descriptor 3 here, with the temporary file under 4 and the stream 2 bound to
  it): no system call is made to fail, \<^verbatim>\<open>os.dup2(3, 2)\<close> raises at the exit, and so does
  \<^verbatim>\<open>os.close(3)\<close> in the \<^verbatim>\<open>finally\<close> clause. The error that reaches the caller is the one
  of the close, not the failure of the restoration, and descriptor 2 is left on the
  description of the temporary file (3) instead of its own (2).
\<close>

theorem captured_fd_counterexample:
  "fst (cm_enter no_faults 2 None std_process)
     = Inr \<lparr>stream = 2, encoding = None, orig_stream = 3, temp_file = 4, temp_closed = False,
            saved_output = []\<rparr> \<and>
   fds (snd (cm_enter no_faults 2 None std_process)) = [(2, 3), (4, 3), (3, 2), (0, 0), (1, 1)] \<and>
   fds (release_fd 3 (snd (cm_enter no_faults 2 None std_process))) = [(2, 3), (4, 3), (0, 0), (1, 1)] \<and>
   fst (os_dup2 (restore_fails no_faults) Dup2_restore 3 2
          (release_fd 3 (snd (cm_enter no_faults 2 None std_process))))
     = Some (OSError Dup2_restore) \<and>
   fst (with_captured_fd ascii_codec no_faults 2 None (close_then_done 3) std_process)
     = Some (OSError Close) \<and>
   fds (snd (snd (with_captured_fd ascii_codec no_faults 2 None (close_then_done 3) std_process)))
     = [(2, 3), (0, 0), (1, 1)]"
  by code_simp






subsection \<open>Decoding captured bytes: the result\<close>






end
